theory Spec2Isabelle
  imports Main
begin

section \<open>Python strings and the module constants\<close>

text \<open>
  A Python \<open>str\<close> is modelled as a \<open>string\<close> whose characters are the code points
  below 256; \<open>len\<close> is \<open>length\<close>. The notebook's module constants are
  \<^verbatim>\<open>TEXT_UNIT = 1000\<close> and \<^verbatim>\<open>LIMIT_TEXT_UNIT = 25\<close>.
\<close>

definition TEXT_UNIT :: nat where
  "TEXT_UNIT = 1000"

definition LIMIT_TEXT_UNIT :: nat where
  "LIMIT_TEXT_UNIT = 25"

datatype error =
    KeyError string
  | UnboundLocalError string
  | ValueError string
  | ClientError string

text \<open>\<^verbatim>\<open>sep.join(xs)\<close>\<close>

fun join :: "string \<Rightarrow> string list \<Rightarrow> string" where
  "join sep [] = []"
| "join sep [x] = x"
| "join sep (x # y # ys) = x @ sep @ join sep (y # ys)"

section \<open>textwrap.wrap with its default options\<close>

text \<open>
  \<^verbatim>\<open>wrap(text, width)\<close> builds a \<open>TextWrapper\<close> with the defaults
  \<open>expand_tabs\<close>, \<open>replace_whitespace\<close>, \<open>drop_whitespace\<close>, \<open>break_long_words\<close>,
  \<open>break_on_hyphens\<close> all true, \<open>tabsize = 8\<close>, empty indents, \<open>max_lines = None\<close> and
  \<open>fix_sentence_endings\<close> false. The model follows \<open>textwrap.py\<close> under these settings.
\<close>

text \<open>\<open>_whitespace = '\t\n\x0b\x0c\r '\<close>\<close>

definition is_whitespace :: "char \<Rightarrow> bool" where
  "is_whitespace c \<longleftrightarrow>
     c = CHR 0x09 \<or> c = CHR 0x0A \<or> c = CHR 0x0B \<or> c = CHR 0x0C \<or> c = CHR 0x0D \<or> c = CHR 0x20"

text \<open>
  \<open>str.isspace\<close> on one character, which decides what \<open>str.strip()\<close> removes: below 256
  these are the code points 0x09-0x0D, 0x1C-0x20, 0x85 and 0xA0.
\<close>

definition isspace :: "char \<Rightarrow> bool" where
  "isspace c \<longleftrightarrow>
     (let n = (of_char c :: nat) in
        (0x09 \<le> n \<and> n \<le> 0x0D) \<or> (0x1C \<le> n \<and> n \<le> 0x20) \<or> n = 0x85 \<or> n = 0xA0)"

text \<open>\<^verbatim>\<open>s.strip() == ''\<close>\<close>

definition strip_is_empty :: "string \<Rightarrow> bool" where
  "strip_is_empty s \<longleftrightarrow> list_all isspace s"

text \<open>
  The regular-expression classes of \<open>TextWrapper\<close>: \<open>\d\<close>, \<open>\w\<close> (alphanumeric or
  underscore), \<open>letter = [^\d\W]\<close> and \<open>word_punct = [\w!"'&.,?]\<close>.
\<close>

definition re_digit :: "char \<Rightarrow> bool" where
  "re_digit c \<longleftrightarrow> (let n = (of_char c :: nat) in 0x30 \<le> n \<and> n \<le> 0x39)"

definition re_word :: "char \<Rightarrow> bool" where
  "re_word c \<longleftrightarrow>
     (let n = (of_char c :: nat) in
        (0x30 \<le> n \<and> n \<le> 0x39) \<or> (0x41 \<le> n \<and> n \<le> 0x5A) \<or> n = 0x5F \<or>
        (0x61 \<le> n \<and> n \<le> 0x7A) \<or> n = 0xAA \<or> (0xB2 \<le> n \<and> n \<le> 0xB3) \<or> n = 0xB5 \<or>
        (0xB9 \<le> n \<and> n \<le> 0xBA) \<or> (0xBC \<le> n \<and> n \<le> 0xBE) \<or>
        (0xC0 \<le> n \<and> n \<le> 0xD6) \<or> (0xD8 \<le> n \<and> n \<le> 0xF6) \<or> 0xF8 \<le> n)"

definition letter :: "char \<Rightarrow> bool" where
  "letter c \<longleftrightarrow> re_word c \<and> \<not> re_digit c"

definition word_punct :: "char \<Rightarrow> bool" where
  "word_punct c \<longleftrightarrow>
     re_word c \<or> c = CHR ''!'' \<or> c = CHR 0x22 \<or> c = CHR 0x27 \<or> c = CHR ''&'' \<or>
     c = CHR ''.'' \<or> c = CHR '','' \<or> c = CHR ''?''"

subsection \<open>\<open>_munge_whitespace\<close>\<close>

text \<open>
  \<open>str.expandtabs(tabsize)\<close>: a tab becomes the spaces up to the next tab stop, the
  column restarts after a line feed or carriage return.
\<close>

fun expandtabs_from :: "nat \<Rightarrow> nat \<Rightarrow> string \<Rightarrow> string" where
  "expandtabs_from tabsize line_pos [] = []"
| "expandtabs_from tabsize line_pos (ch # cs) =
     (if ch = CHR 0x09 then
        (if tabsize > 0 then
           (let incr = tabsize - line_pos mod tabsize
            in replicate incr CHR 0x20 @ expandtabs_from tabsize (line_pos + incr) cs)
         else expandtabs_from tabsize line_pos cs)
      else ch # expandtabs_from tabsize
             (if ch = CHR 0x0A \<or> ch = CHR 0x0D then 0 else line_pos + 1) cs)"

definition expandtabs :: "nat \<Rightarrow> string \<Rightarrow> string" where
  "expandtabs tabsize text = expandtabs_from tabsize 0 text"

text \<open>\<open>text.translate(unicode_whitespace_trans)\<close>\<close>

definition translate_whitespace :: "string \<Rightarrow> string" where
  "translate_whitespace text = map (\<lambda>c. if is_whitespace c then CHR 0x20 else c) text"

definition munge_whitespace :: "string \<Rightarrow> string" where
  "munge_whitespace text = translate_whitespace (expandtabs 8 text)"

subsection \<open>\<open>_split\<close>: the chunks matched by \<open>wordsep_re\<close>\<close>

text \<open>
  A position in the text is the pair of the characters behind it, nearest first, and the
  characters from it on. Each function returns the length of the match at that position.
\<close>

text \<open>\<^verbatim>\<open>-{2,}(?=\w)\<close> looking ahead from the position.\<close>

definition em_dash_len :: "string \<Rightarrow> nat option" where
  "em_dash_len rest =
     (let k = length (takeWhile (\<lambda>c. c = CHR ''-'') rest)
      in if 2 \<le> k \<and> (case drop k rest of [] \<Rightarrow> False | c # _ \<Rightarrow> re_word c)
         then Some k else None)"

text \<open>\<^verbatim>\<open>(?<=wp) -{2,} (?=\w)\<close>\<close>

definition match_em_dash :: "string \<Rightarrow> string \<Rightarrow> nat option" where
  "match_em_dash behind rest =
     (case behind of [] \<Rightarrow> None
      | b # _ \<Rightarrow> if word_punct b then em_dash_len rest else None)"

text \<open>
  \<^verbatim>\<open>-(?: (?<=lt{2}-) | (?<=lt-lt-)) (?= lt -? lt)\<close> at a position inside a word:
  \<open>behind\<close> are the characters in front of the hyphen.
\<close>

definition hyphen_break :: "string \<Rightarrow> string \<Rightarrow> bool" where
  "hyphen_break behind rest =
     (case rest of
        h # after \<Rightarrow>
          h = CHR ''-'' \<and>
          ((case behind of b1 # b2 # _ \<Rightarrow> letter b1 \<and> letter b2 | _ \<Rightarrow> False) \<or>
           (case behind of b1 # b2 # b3 # _ \<Rightarrow> letter b1 \<and> b2 = CHR ''-'' \<and> letter b3
            | _ \<Rightarrow> False)) \<and>
          (case after of
             l1 # l2 # others \<Rightarrow>
               letter l1 \<and>
               ((l2 = CHR ''-'' \<and> (case others of l3 # _ \<Rightarrow> letter l3 | [] \<Rightarrow> False)) \<or> letter l2)
           | _ \<Rightarrow> False)
      | [] \<Rightarrow> False)"

text \<open>\<^verbatim>\<open>(?=ws|\Z)\<close>\<close>

definition end_of_word :: "string \<Rightarrow> bool" where
  "end_of_word rest = (case rest of [] \<Rightarrow> True | c # _ \<Rightarrow> is_whitespace c)"

text \<open>\<^verbatim>\<open>(?<=wp) (?=-{2,}\w)\<close>\<close>

definition em_dash_next :: "string \<Rightarrow> string \<Rightarrow> bool" where
  "em_dash_next behind rest =
     (case behind of [] \<Rightarrow> False | b # _ \<Rightarrow> word_punct b \<and> em_dash_len rest \<noteq> None)"

text \<open>
  The lazy \<^verbatim>\<open>nws+?\<close> after its first character: try the three endings, otherwise
  take one more non-whitespace character. The result counts the characters matched from
  here on.
\<close>

fun word_tail :: "string \<Rightarrow> string \<Rightarrow> nat option" where
  "word_tail behind [] =
     (if hyphen_break behind [] then Some 1
      else if end_of_word [] then Some 0
      else if em_dash_next behind [] then Some 0
      else None)"
| "word_tail behind (c # cs) =
     (if hyphen_break behind (c # cs) then Some 1
      else if end_of_word (c # cs) then Some 0
      else if em_dash_next behind (c # cs) then Some 0
      else if is_whitespace c then None
      else map_option Suc (word_tail (c # behind) cs))"

text \<open>The three alternatives of \<open>wordsep_re\<close>, in order.\<close>

definition wordsep_match :: "string \<Rightarrow> string \<Rightarrow> nat option" where
  "wordsep_match behind rest =
     (let w = length (takeWhile is_whitespace rest) in
      if 1 \<le> w then Some w
      else case match_em_dash behind rest of
             Some k \<Rightarrow> Some k
           | None \<Rightarrow>
               (case rest of [] \<Rightarrow> None
                | c # cs \<Rightarrow> if is_whitespace c then None
                            else map_option Suc (word_tail (c # behind) cs)))"

text \<open>
  \<open>wordsep_re.split(text)\<close>: the pattern is one capturing group, so the result lists
  the text between matches and the matches themselves, in order. \<open>pending\<close> is the
  unmatched text since the last match.
\<close>

function re_split :: "string \<Rightarrow> string \<Rightarrow> string \<Rightarrow> string list" where
  "re_split behind pending [] = [pending]"
| "re_split behind pending (c # cs) =
     (case wordsep_match behind (c # cs) of
        None \<Rightarrow> re_split (c # behind) (pending @ [c]) cs
      | Some n \<Rightarrow>
          pending # take n (c # cs) #
          re_split (rev (take n (c # cs)) @ behind) [] (drop n (c # cs)))"
  by pat_completeness auto

text \<open>
  \<open>_split\<close>, here \<open>split_text\<close>, keeps the non-empty pieces; \<open>_split_chunks\<close> munges
  first.
\<close>

definition split_text :: "string \<Rightarrow> string list" where
  "split_text text = filter (\<lambda>c. c \<noteq> []) (re_split [] [] text)"

definition split_chunks :: "string \<Rightarrow> string list" where
  "split_chunks text = split_text (munge_whitespace text)"

subsection \<open>\<open>_wrap_chunks\<close>\<close>

text \<open>
  The inner loop of \<open>_wrap_chunks\<close>: move chunks to the current line while they fit.
  The source pops from a reversed list; here the head of the list is the next chunk.
\<close>

fun take_fitting ::
  "nat \<Rightarrow> string list \<Rightarrow> nat \<Rightarrow> string list \<Rightarrow> string list \<times> nat \<times> string list" where
  "take_fitting width cur_line cur_len [] = (cur_line, cur_len, [])"
| "take_fitting width cur_line cur_len (c # cs) =
     (if cur_len + length c \<le> width
      then take_fitting width (cur_line @ [c]) (cur_len + length c) cs
      else (cur_line, cur_len, c # cs))"

text \<open>\<^verbatim>\<open>chunk.rfind('-', 0, space_left)\<close>: the last hyphen among the first \<open>space_left\<close> characters.\<close>

fun rfind_hyphen :: "string \<Rightarrow> nat \<Rightarrow> nat option" where
  "rfind_hyphen chunk 0 = None"
| "rfind_hyphen chunk (Suc i) =
     (if i < length chunk \<and> chunk ! i = CHR ''-'' then Some i else rfind_hyphen chunk i)"

text \<open>
  \<open>_handle_long_word\<close> with \<open>break_long_words\<close> and \<open>break_on_hyphens\<close>: \<open>long_word_end\<close>
  is the index \<open>end\<close> at which the chunk is cut.
\<close>

definition long_word_end :: "string \<Rightarrow> nat \<Rightarrow> nat" where
  "long_word_end chunk space_left =
     (if length chunk > space_left then
        (case rfind_hyphen chunk space_left of
           None \<Rightarrow> space_left
         | Some hyphen \<Rightarrow>
             if hyphen > 0 \<and> list_ex (\<lambda>c. c \<noteq> CHR ''-'') (take hyphen chunk)
             then hyphen + 1 else space_left)
      else space_left)"

definition handle_long_word ::
  "string \<Rightarrow> string list \<Rightarrow> string list \<Rightarrow> nat \<Rightarrow> nat \<Rightarrow> string list \<times> string list" where
  "handle_long_word chunk chunks cur_line cur_len width =
     (let space_left = (if width < 1 then 1 else width - cur_len);
          end = long_word_end chunk space_left
      in (cur_line @ [take end chunk], drop end chunk # chunks))"

text \<open>
  One pass of the outer \<open>while chunks\<close> loop: it returns the lines so far and the
  chunks that remain. The loop enters a pass only with a chunk left.
\<close>

definition wrap_line :: "nat \<Rightarrow> string list \<Rightarrow> string list \<Rightarrow> string list \<times> string list" where
  "wrap_line width lines chunks =
     (let chunks1 =
            (case chunks of
               [] \<Rightarrow> []
             | c # cs \<Rightarrow> if strip_is_empty c \<and> lines \<noteq> [] then cs else chunks);
          (cur_line1, cur_len1, chunks2) = take_fitting width [] 0 chunks1;
          (cur_line2, chunks3) =
            (case chunks2 of
               [] \<Rightarrow> (cur_line1, chunks2)
             | chunk # others \<Rightarrow>
                 if length chunk > width
                 then handle_long_word chunk others cur_line1 cur_len1 width
                 else (cur_line1, chunks2));
          cur_line3 =
            (if cur_line2 \<noteq> [] \<and> strip_is_empty (last cur_line2)
             then butlast cur_line2 else cur_line2)
      in (if cur_line3 \<noteq> [] then lines @ [concat cur_line3] else lines, chunks3))"

definition chunk_measure :: "string list \<Rightarrow> nat" where
  "chunk_measure chunks = sum_list (map (\<lambda>c. Suc (length c)) chunks)"

text \<open>The outer loop \<^verbatim>\<open>while chunks:\<close>, starting from \<open>lines = []\<close>.\<close>

function wrap_loop :: "nat \<Rightarrow> string list \<Rightarrow> string list \<Rightarrow> string list" where
  "wrap_loop width lines [] = lines"
| "wrap_loop width lines (c # cs) =
     (case wrap_line width lines (c # cs) of
        (lines', chunks') \<Rightarrow> wrap_loop width lines' chunks')"
  by pat_completeness auto

text \<open>
  \<open>_wrap_chunks\<close> raises \<open>ValueError\<close> for a width that is not positive; \<open>wrap\<close> is
  \<open>_wrap_chunks(_split_chunks(text))\<close>.
\<close>

definition wrap_chunks :: "nat \<Rightarrow> string list \<Rightarrow> error + string list" where
  "wrap_chunks width chunks =
     (if width \<le> 0 then Inl (ValueError ''invalid width'') else Inr (wrap_loop width [] chunks))"

definition wrap :: "string \<Rightarrow> nat \<Rightarrow> error + string list" where
  "wrap text width = wrap_chunks width (split_chunks text)"

section \<open>The ApplyGuardrail response and the Unit Evaluator\<close>

text \<open>
  The response of \<open>bedrock_runtime.apply_guardrail\<close> is a dictionary; the records hold
  the members the notebook reads. A violation (a topic, word, PII entity, regex or
  content filter finding) is read only for its \<open>action\<close>. A policy that an assessment
  does not carry is \<open>None\<close>.
\<close>

record violation =
  violation_action :: string

record word_policy =
  customWords :: "violation list option"
  managedWordLists :: "violation list option"

record sensitive_information_policy =
  piiEntities :: "violation list option"
  regexes :: "violation list option"

text \<open>
  \<open>topicPolicy\<close> holds \<^verbatim>\<open>assessment['topicPolicy']['topics']\<close> and \<open>contentPolicy\<close>
  holds \<^verbatim>\<open>assessment['contentPolicy']['filters']\<close>.
\<close>

record assessment =
  topicPolicy :: "violation list option"
  wordPolicy :: "word_policy option"
  sensitiveInformationPolicy :: "sensitive_information_policy option"
  contentPolicy :: "violation list option"

definition check_severe_violations :: "violation list \<Rightarrow> nat" where
  "check_severe_violations violations =
     sum_list (map (\<lambda>violation. if violation_action violation = ''BLOCKED'' then 1 else 0) violations)"

text \<open>The entries one assessment appends to \<open>blocked\<close>.\<close>

definition assessment_blocked :: "assessment \<Rightarrow> nat list" where
  "assessment_blocked a =
     (case topicPolicy a of None \<Rightarrow> [] | Some topics \<Rightarrow> [check_severe_violations topics]) @
     (case wordPolicy a of None \<Rightarrow> []
      | Some wp \<Rightarrow>
          (case customWords wp of None \<Rightarrow> [] | Some ws \<Rightarrow> [check_severe_violations ws]) @
          (case managedWordLists wp of None \<Rightarrow> [] | Some ws \<Rightarrow> [check_severe_violations ws])) @
     (case sensitiveInformationPolicy a of None \<Rightarrow> []
      | Some sp \<Rightarrow>
          (case piiEntities sp of None \<Rightarrow> [] | Some es \<Rightarrow> [check_severe_violations es]) @
          (case regexes sp of None \<Rightarrow> [] | Some rs \<Rightarrow> [check_severe_violations rs])) @
     (case contentPolicy a of None \<Rightarrow> [] | Some filters \<Rightarrow> [check_severe_violations filters])"

definition is_policy_assessement_blocked :: "assessment list \<Rightarrow> bool" where
  "is_policy_assessement_blocked assessments =
     (let blocked = concat (map assessment_blocked assessments);
          severe_violation_count = sum_list blocked
      in severe_violation_count > 0)"

text \<open>
  \<open>outputs\<close> holds the \<^verbatim>\<open>output['text']\<close> of each output. \<open>response_usage\<close> is the
  member \<open>usage\<close> that every response carries, the text units the service counted per
  policy; the name \<open>usage\<close> is kept for the member of the stream's metadata.
\<close>

type_synonym guardrail_usage = "(string \<times> int) list"

record guardrail_response =
  action :: string
  outputs :: "string list"
  assessments :: "assessment list"
  response_usage :: guardrail_usage

record request =
  guardrailIdentifier :: string
  guardrailVersion :: string
  source :: string
  content :: string

text \<open>
  The external service: it answers a request with a response or raises. Its answer may
  depend on the requests it has received before, which are passed as the first argument.
\<close>

type_synonym service = "request list \<Rightarrow> request \<Rightarrow> error + guardrail_response"

text \<open>
  \<open>apply_guardrail\<close> sends one request and interprets the response. The first component
  of the result is the list of requests sent so far, the second is what the function
  returns or raises.
\<close>

definition apply_guardrail ::
  "service \<Rightarrow> request list \<Rightarrow> string \<Rightarrow> string \<Rightarrow> string \<Rightarrow> string \<Rightarrow>
     request list \<times> (error + bool \<times> string \<times> guardrail_response)" where
  "apply_guardrail svc calls text text_source_type guardrail_id guardrail_version =
     (let req = \<lparr>guardrailIdentifier = guardrail_id, guardrailVersion = guardrail_version,
                 source = text_source_type, content = text\<rparr>
      in (calls @ [req],
          case svc calls req of
            Inl e \<Rightarrow> Inl e
          | Inr response \<Rightarrow>
              if action response = ''GUARDRAIL_INTERVENED'' then
                (let is_blocked = is_policy_assessement_blocked (assessments response);
                     alternate_text = join '' '' (outputs response)
                 in Inr (is_blocked, alternate_text, response))
              else Inr (False, text, response)))"

section \<open>The Batch Chunker\<close>

text \<open>
  The \<open>for\<close> loop of \<open>apply_guardrail_full_text\<close> over the chunks. \<open>bound\<close> holds
  \<open>is_blocked\<close> and \<open>response\<close> as the previous pass left them, \<open>None\<close> while they are
  unbound; the \<open>return\<close> after the loop reads them.
\<close>

fun chunk_loop ::
  "service \<Rightarrow> string \<Rightarrow> string \<Rightarrow> string \<Rightarrow> request list \<Rightarrow> string \<Rightarrow>
     (bool \<times> guardrail_response) option \<Rightarrow> string list \<Rightarrow>
     request list \<times> (error + bool \<times> string \<times> guardrail_response)" where
  "chunk_loop svc text_source_type guardrail_id guardrail_version calls filtered_text bound [] =
     (calls,
      case bound of
        None \<Rightarrow> Inl (UnboundLocalError ''is_blocked'')
      | Some (is_blocked, response) \<Rightarrow> Inr (is_blocked, filtered_text, response))"
| "chunk_loop svc text_source_type guardrail_id guardrail_version calls filtered_text bound (chunk # chunks) =
     (case apply_guardrail svc calls chunk text_source_type guardrail_id guardrail_version of
        (calls', Inl e) \<Rightarrow> (calls', Inl e)
      | (calls', Inr (is_blocked, alternate_text, response)) \<Rightarrow>
          if is_blocked then (calls', Inr (is_blocked, alternate_text, response))
          else chunk_loop svc text_source_type guardrail_id guardrail_version calls'
                 (filtered_text @ alternate_text) (Some (is_blocked, response)) chunks)"

definition apply_guardrail_full_text ::
  "service \<Rightarrow> request list \<Rightarrow> string \<Rightarrow> string \<Rightarrow> string \<Rightarrow> string \<Rightarrow>
     request list \<times> (error + bool \<times> string \<times> guardrail_response)" where
  "apply_guardrail_full_text svc calls text text_source_type guardrail_id guardrail_version =
     (let text_length = length text in
      if text_length \<le> LIMIT_TEXT_UNIT * TEXT_UNIT then
        apply_guardrail svc calls text text_source_type guardrail_id guardrail_version
      else
        (case wrap text (LIMIT_TEXT_UNIT * TEXT_UNIT) of
           Inl e \<Rightarrow> (calls, Inl e)
         | Inr chunks \<Rightarrow>
             chunk_loop svc text_source_type guardrail_id guardrail_version calls [] None chunks))"

section \<open>The Stream Dispatcher\<close>

text \<open>
  An event of the converse stream is a dictionary. A member the event does not have is
  \<open>None\<close>, and so is a field that a member lacks:
  \<^item> \<open>messageStart\<close> holds the \<open>role\<close>: \<open>Some None\<close> is a \<open>messageStart\<close> without \<open>role\<close>;
  \<^item> \<open>contentBlockDelta\<close> is \<open>Some None\<close> without \<open>delta\<close>, \<open>Some (Some None)\<close> when the
    \<open>delta\<close> has no \<open>text\<close>, and \<open>Some (Some (Some t))\<close> for the text \<open>t\<close>;
  \<^item> \<open>messageStop\<close> holds the \<open>stopReason\<close>;
  \<^item> \<open>metadata\<close> holds \<open>usage\<close> (the token counts), \<open>metrics\<close> (the latency) and
    \<open>guardrails_usage\<close>, which the dispatcher itself stores there.

  Reading a missing field raises \<open>KeyError\<close>. What the notebook prints is not part of
  the model; the reads that the \<open>print\<close> calls make are.
\<close>

record token_usage =
  inputTokens :: "int option"
  outputTokens :: "int option"
  totalTokens :: "int option"

record stream_metrics =
  latencyMs :: "int option"

record stream_metadata =
  usage :: "token_usage option"
  metrics :: "stream_metrics option"
  guardrails_usage :: "guardrail_usage option"

record event =
  messageStart :: "string option option"
  contentBlockDelta :: "string option option option"
  messageStop :: "string option option"
  metadata :: "stream_metadata option"

text \<open>
  The local variables of \<open>stream_conversation\<close>, and the requests sent to the guardrail
  service so far.
\<close>

record dispatcher =
  full_text :: string
  buffer_text :: string
  applied_guardrails :: "guardrail_response list"
  calls :: "request list"

datatype signal = Next | Break | Raise error

text \<open>
  The body of \<^verbatim>\<open>if 'messageStart' in event\<close>: it reads
  \<^verbatim>\<open>event['messageStart']['role']\<close> and returns the exception raised, if any.
\<close>

definition start_phase :: "event \<Rightarrow> error option" where
  "start_phase ev =
     (case messageStart ev of
        None \<Rightarrow> None
      | Some None \<Rightarrow> Some (KeyError ''role'')
      | Some (Some role) \<Rightarrow> None)"

text \<open>
  The body of \<^verbatim>\<open>if 'contentBlockDelta' in event\<close>. It returns the exception raised, if
  any, the event (a blocked flush stores a \<open>messageStop\<close> in it) and the variables.
\<close>

definition delta_phase ::
  "service \<Rightarrow> string \<Rightarrow> string \<Rightarrow> dispatcher \<Rightarrow> event \<Rightarrow> error option \<times> event \<times> dispatcher" where
  "delta_phase svc guardrail_id guardrail_version st ev =
     (case contentBlockDelta ev of
        None \<Rightarrow> (None, ev, st)
      | Some None \<Rightarrow> (Some (KeyError ''delta''), ev, st)
      | Some (Some None) \<Rightarrow> (Some (KeyError ''text''), ev, st)
      | Some (Some (Some new_text)) \<Rightarrow>
          if length (buffer_text st @ new_text) > TEXT_UNIT then
            (case apply_guardrail svc (calls st) (buffer_text st) ''OUTPUT'' guardrail_id guardrail_version of
               (calls', Inl e) \<Rightarrow> (Some e, ev, st\<lparr>calls := calls'\<rparr>)
             | (calls', Inr (is_blocked, alt_text, guardrail_response)) \<Rightarrow>
                 (None,
                  if is_blocked then ev\<lparr>messageStop := Some (Some (action guardrail_response))\<rparr> else ev,
                  st\<lparr>full_text := (if is_blocked then alt_text else full_text st @ alt_text),
                     applied_guardrails := applied_guardrails st @ [guardrail_response],
                     buffer_text := new_text,
                     calls := calls'\<rparr>))
          else (None, ev, st\<lparr>buffer_text := buffer_text st @ new_text\<rparr>))"

text \<open>The empty dictionary that a blocked final evaluation stores as \<open>metadata\<close>.\<close>

definition empty_metadata :: stream_metadata where
  "empty_metadata = \<lparr>usage = None, metrics = None, guardrails_usage = None\<rparr>"

text \<open>
  The body of \<^verbatim>\<open>if 'messageStop' in event\<close>. It returns the event as well: a blocked
  final evaluation stores the response's usage in the event's \<open>metadata\<close>.
\<close>

definition stop_phase ::
  "service \<Rightarrow> string \<Rightarrow> string \<Rightarrow> dispatcher \<Rightarrow> event \<Rightarrow> signal \<times> event \<times> dispatcher" where
  "stop_phase svc guardrail_id guardrail_version st ev =
     (case messageStop ev of
        None \<Rightarrow> (Next, ev, st)
      | Some None \<Rightarrow> (Raise (KeyError ''stopReason''), ev, st)
      | Some (Some stopReason) \<Rightarrow>
          if stopReason = ''GUARDRAIL_INTERVENED'' then (Break, ev, st)
          else
            (case apply_guardrail svc (calls st) (buffer_text st) ''OUTPUT'' guardrail_id guardrail_version of
               (calls', Inl e) \<Rightarrow> (Raise e, ev, st\<lparr>calls := calls'\<rparr>)
             | (calls', Inr (is_blocked, alt_text, guardrail_response)) \<Rightarrow>
                 if is_blocked
                 then (Next,
                       ev\<lparr>metadata :=
                            Some ((case metadata ev of None \<Rightarrow> empty_metadata | Some md \<Rightarrow> md)
                                    \<lparr>guardrails_usage := Some (response_usage guardrail_response)\<rparr>)\<rparr>,
                       st\<lparr>applied_guardrails := applied_guardrails st @ [guardrail_response],
                          calls := calls'\<rparr>)
                 else (Next, ev, st\<lparr>calls := calls'\<rparr>)))"

text \<open>
  The body of \<^verbatim>\<open>if 'metadata' in event\<close>: the token counts of \<open>usage\<close> are read in the
  order \<open>inputTokens\<close>, \<open>outputTokens\<close>, \<open>totalTokens\<close>, then the \<open>latencyMs\<close> of
  \<open>metrics\<close>; \<open>guardrails_usage\<close> is printed whole.
\<close>

definition usage_phase :: "stream_metadata \<Rightarrow> error option" where
  "usage_phase md =
     (case usage md of
        None \<Rightarrow> None
      | Some u \<Rightarrow>
          if inputTokens u = None then Some (KeyError ''inputTokens'')
          else if outputTokens u = None then Some (KeyError ''outputTokens'')
          else if totalTokens u = None then Some (KeyError ''totalTokens'')
          else None)"

definition metrics_phase :: "stream_metadata \<Rightarrow> error option" where
  "metrics_phase md =
     (case metrics md of
        None \<Rightarrow> None
      | Some ms \<Rightarrow> if latencyMs ms = None then Some (KeyError ''latencyMs'') else None)"

definition metadata_phase :: "event \<Rightarrow> error option" where
  "metadata_phase ev =
     (case metadata ev of
        None \<Rightarrow> None
      | Some md \<Rightarrow>
          (case usage_phase md of
             Some e \<Rightarrow> Some e
           | None \<Rightarrow> metrics_phase md))"

text \<open>One pass of \<^verbatim>\<open>for event in stream\<close>.\<close>

definition on_event ::
  "service \<Rightarrow> string \<Rightarrow> string \<Rightarrow> dispatcher \<Rightarrow> event \<Rightarrow> signal \<times> dispatcher" where
  "on_event svc guardrail_id guardrail_version st ev =
     (case start_phase ev of
        Some e \<Rightarrow> (Raise e, st)
      | None \<Rightarrow>
          (case delta_phase svc guardrail_id guardrail_version st ev of
             (Some e, ev', st') \<Rightarrow> (Raise e, st')
           | (None, ev', st') \<Rightarrow>
               (case stop_phase svc guardrail_id guardrail_version st' ev' of
                  (Next, ev'', st'') \<Rightarrow>
                    (case metadata_phase ev'' of
                       Some e \<Rightarrow> (Raise e, st'')
                     | None \<Rightarrow> (Next, st''))
                | (Break, ev'', st'') \<Rightarrow> (Break, st'')
                | (Raise e, ev'', st'') \<Rightarrow> (Raise e, st''))))"

fun event_loop ::
  "service \<Rightarrow> string \<Rightarrow> string \<Rightarrow> dispatcher \<Rightarrow> event list \<Rightarrow> signal \<times> dispatcher" where
  "event_loop svc guardrail_id guardrail_version st [] = (Next, st)"
| "event_loop svc guardrail_id guardrail_version st (ev # evs) =
     (case on_event svc guardrail_id guardrail_version st ev of
        (Next, st') \<Rightarrow> event_loop svc guardrail_id guardrail_version st' evs
      | (Break, st') \<Rightarrow> (Break, st')
      | (Raise e, st') \<Rightarrow> (Raise e, st'))"

definition initial :: dispatcher where
  "initial = \<lparr>full_text = [], buffer_text = [], applied_guardrails = [], calls = []\<rparr>"

text \<open>
  \<open>stream_conversation\<close> from \<^verbatim>\<open>stream = response.get('stream')\<close> on: \<open>stream\<close> is
  \<open>None\<close> when the response has no stream, otherwise the finite sequence of its events.
  \<open>run_stream\<close> also gives the requests sent; \<open>stream_conversation\<close> is what the function
  returns or raises.
\<close>

definition run_stream ::
  "service \<Rightarrow> string \<Rightarrow> string \<Rightarrow> event list option \<Rightarrow> signal \<times> dispatcher" where
  "run_stream svc guardrail_id guardrail_version stream =
     (case stream of
        None \<Rightarrow> (Next, initial)
      | Some events \<Rightarrow> event_loop svc guardrail_id guardrail_version initial events)"

definition stream_conversation ::
  "service \<Rightarrow> string \<Rightarrow> string \<Rightarrow> event list option \<Rightarrow>
     error + string \<times> guardrail_response list" where
  "stream_conversation svc guardrail_id guardrail_version stream =
     (case run_stream svc guardrail_id guardrail_version stream of
        (Raise e, st) \<Rightarrow> Inl e
      | (_, st) \<Rightarrow> Inr (full_text st, applied_guardrails st))"

section \<open>Notions used in the statements\<close>

text \<open>
  The findings of an assessment, across all its sub-policies, and whether one of them
  carries the blocking action.
\<close>

definition findings :: "assessment \<Rightarrow> violation list" where
  "findings a =
     (case topicPolicy a of None \<Rightarrow> [] | Some topics \<Rightarrow> topics) @
     (case wordPolicy a of None \<Rightarrow> []
      | Some wp \<Rightarrow>
          (case customWords wp of None \<Rightarrow> [] | Some ws \<Rightarrow> ws) @
          (case managedWordLists wp of None \<Rightarrow> [] | Some ws \<Rightarrow> ws)) @
     (case sensitiveInformationPolicy a of None \<Rightarrow> []
      | Some sp \<Rightarrow>
          (case piiEntities sp of None \<Rightarrow> [] | Some es \<Rightarrow> es) @
          (case regexes sp of None \<Rightarrow> [] | Some rs \<Rightarrow> rs)) @
     (case contentPolicy a of None \<Rightarrow> [] | Some filters \<Rightarrow> filters)"

definition has_blocking_finding :: "assessment list \<Rightarrow> bool" where
  "has_blocking_finding as =
     list_ex (\<lambda>v. violation_action v = ''BLOCKED'') (concat (map findings as))"

text \<open>
  The contract of the external service on a response: its action is \<open>NONE\<close> or
  \<open>GUARDRAIL_INTERVENED\<close>, and a finding carries \<open>BLOCKED\<close> only when the guardrail
  has intervened.
\<close>

definition conforming :: "guardrail_response \<Rightarrow> bool" where
  "conforming response \<longleftrightarrow>
     action response = ''GUARDRAIL_INTERVENED'' \<or>
     (action response = ''NONE'' \<and> \<not> has_blocking_finding (assessments response))"

text \<open>The characters of a text that are not white space (\<open>str.isspace\<close>), in order.\<close>

definition visible :: "string \<Rightarrow> string" where
  "visible s = filter (\<lambda>c. \<not> isspace c) s"

text \<open>
  \<open>covers s ws\<close>: the strings \<open>ws\<close> are, in order, non-overlapping contiguous pieces of
  \<open>s\<close>, and what lies before, between and after them is white space only. The position
  \<open>n\<close> is where the first piece starts.
\<close>

fun covers :: "string \<Rightarrow> string list \<Rightarrow> bool" where
  "covers s [] = strip_is_empty s"
| "covers s (w # ws) =
     list_ex (\<lambda>n. strip_is_empty (take n s) \<and> take (length w) (drop n s) = w \<and>
                  covers (drop (n + length w) s) ws)
       [0..<Suc (length s)]"

text \<open>The request \<open>apply_guardrail\<close> builds.\<close>

definition guardrail_request :: "string \<Rightarrow> string \<Rightarrow> string \<Rightarrow> string \<Rightarrow> request" where
  "guardrail_request guardrail_id guardrail_version text_source_type text =
     \<lparr>guardrailIdentifier = guardrail_id, guardrailVersion = guardrail_version,
      source = text_source_type, content = text\<rparr>"

text \<open>A service on which no evaluation ever intervenes.\<close>

definition never_intervenes :: "service \<Rightarrow> bool" where
  "never_intervenes svc \<longleftrightarrow>
     (\<forall>cs req. \<exists>response. svc cs req = Inr response \<and> action response \<noteq> ''GUARDRAIL_INTERVENED'')"

text \<open>Events that carry only a text delta, or only a stop reason.\<close>

definition delta_event :: "string \<Rightarrow> event" where
  "delta_event new_text =
     \<lparr>messageStart = None, contentBlockDelta = Some (Some (Some new_text)), messageStop = None,
      metadata = None\<rparr>"

definition stop_event :: "string \<Rightarrow> event" where
  "stop_event stopReason =
     \<lparr>messageStart = None, contentBlockDelta = None, messageStop = Some (Some stopReason),
      metadata = None\<rparr>"

text \<open>
  An event that is missing an expected field: one of its members lacks a field that
  the dispatcher reads from it.
\<close>

definition malformed :: "event \<Rightarrow> bool" where
  "malformed ev \<longleftrightarrow>
     messageStart ev = Some None \<or>
     contentBlockDelta ev = Some None \<or>
     contentBlockDelta ev = Some (Some None) \<or>
     messageStop ev = Some None \<or>
     (case metadata ev of
        None \<Rightarrow> False
      | Some md \<Rightarrow>
          (case usage md of
             None \<Rightarrow> False
           | Some u \<Rightarrow> inputTokens u = None \<or> outputTokens u = None \<or> totalTokens u = None) \<or>
          (case metrics md of
             None \<Rightarrow> False
           | Some ms \<Rightarrow> latencyMs ms = None))"

text \<open>An event that carries a text delta, and one that carries a stop reason.\<close>

definition carries_text :: "event \<Rightarrow> bool" where
  "carries_text ev = (case contentBlockDelta ev of Some (Some (Some t)) \<Rightarrow> True | _ \<Rightarrow> False)"

definition carries_stop_reason :: "event \<Rightarrow> bool" where
  "carries_stop_reason ev = (case messageStop ev of Some (Some r) \<Rightarrow> True | _ \<Rightarrow> False)"

text \<open>
  The state machine of the specification on a sequence of deltas: the buffers that a
  threshold crossing flushes, and the buffer that remains at the end.
\<close>

fun threshold_flushes :: "string \<Rightarrow> string list \<Rightarrow> string list" where
  "threshold_flushes buffer [] = []"
| "threshold_flushes buffer (delta # deltas) =
     (if length (buffer @ delta) > TEXT_UNIT
      then buffer # threshold_flushes delta deltas
      else threshold_flushes (buffer @ delta) deltas)"

fun residual_buffer :: "string \<Rightarrow> string list \<Rightarrow> string" where
  "residual_buffer buffer [] = buffer"
| "residual_buffer buffer (delta # deltas) =
     (if length (buffer @ delta) > TEXT_UNIT
      then residual_buffer delta deltas
      else residual_buffer (buffer @ delta) deltas)"

section \<open>Example inputs\<close>

definition none_response :: guardrail_response where
  "none_response =
     \<lparr>action = ''NONE'', outputs = [], assessments = [], response_usage = []\<rparr>"

definition blocking_assessment :: assessment where
  "blocking_assessment =
     \<lparr>topicPolicy = Some [\<lparr>violation_action = ''BLOCKED''\<rparr>], wordPolicy = None,
      sensitiveInformationPolicy = None, contentPolicy = None\<rparr>"

definition blocked_response :: guardrail_response where
  "blocked_response =
     \<lparr>action = ''GUARDRAIL_INTERVENED'', outputs = [''Sorry''],
      assessments = [blocking_assessment], response_usage = [(''topicPolicyUnits'', 1)]\<rparr>"

definition pass_service :: service where
  "pass_service cs req = Inr none_response"

text \<open>A service that blocks the second request it receives.\<close>

definition block_second_service :: service where
  "block_second_service cs req = (if length cs = 1 then Inr blocked_response else Inr none_response)"

text \<open>A service that blocks every request.\<close>

definition block_service :: service where
  "block_service cs req = Inr blocked_response"

text \<open>The dispatcher after one delta of 1000 characters, from the initial state.\<close>

definition after_first_delta :: dispatcher where
  "after_first_delta =
     \<lparr>full_text = [], buffer_text = replicate 1000 CHR ''a'', applied_guardrails = [], calls = []\<rparr>"

text \<open>The dispatcher after the first flush of the two-flush example has passed.\<close>

definition after_first_flush :: dispatcher where
  "after_first_flush =
     \<lparr>full_text = replicate 1000 CHR ''a'', buffer_text = replicate 1000 CHR ''b'',
      applied_guardrails = [none_response],
      calls = [guardrail_request ''g'' ''1'' ''OUTPUT'' (replicate 1000 CHR ''a'')]\<rparr>"

text \<open>
  Three events that are missing an expected field: \<^verbatim>\<open>{'contentBlockDelta': {'delta': {}}}\<close>,
  \<^verbatim>\<open>{'messageStart': {}}\<close> and \<^verbatim>\<open>{'metadata': {'usage': {}}}\<close>.
\<close>

definition delta_without_text :: event where
  "delta_without_text =
     \<lparr>messageStart = None, contentBlockDelta = Some (Some None), messageStop = None,
      metadata = None\<rparr>"

definition start_without_role :: event where
  "start_without_role =
     \<lparr>messageStart = Some None, contentBlockDelta = None, messageStop = None, metadata = None\<rparr>"

definition usage_without_tokens :: event where
  "usage_without_tokens =
     \<lparr>messageStart = None, contentBlockDelta = None, messageStop = None,
      metadata = Some \<lparr>usage = Some \<lparr>inputTokens = None, outputTokens = None, totalTokens = None\<rparr>,
                       metrics = None, guardrails_usage = None\<rparr>\<rparr>"

text \<open>The \<open>metadata\<close> event that closes a stream, with all its fields.\<close>

definition metadata_event :: event where
  "metadata_event =
     \<lparr>messageStart = None, contentBlockDelta = None, messageStop = None,
      metadata = Some \<lparr>usage = Some \<lparr>inputTokens = Some 12, outputTokens = Some 34,
                                     totalTokens = Some 46\<rparr>,
                       metrics = Some \<lparr>latencyMs = Some 250\<rparr>, guardrails_usage = None\<rparr>\<rparr>"

text \<open>A service whose every call fails.\<close>

definition failing_service :: service where
  "failing_service cs req = Inl (ClientError ''ThrottlingException'')"

text \<open>Two texts longer than \<open>LIMIT_TEXT_UNIT * TEXT_UNIT\<close> characters.\<close>

definition long_word_then_letter :: string where
  "long_word_then_letter = replicate 25000 CHR ''a'' @ '' b''"

definition long_blank_text :: string where
  "long_blank_text = replicate 25001 CHR 0x20"

section \<open>Termination of the wrapping loops\<close>

lemma word_tail_le: "word_tail behind rest = Some n \<Longrightarrow> n \<le> length rest"
proof (induction rest arbitrary: behind n)
  case Nil
  then show ?case by (simp add: hyphen_break_def split: if_splits)
next
  case (Cons c cs)
  then show ?case
    by (auto simp: hyphen_break_def split: if_splits)
qed

lemma em_dash_len_bounds: "em_dash_len rest = Some k \<Longrightarrow> 0 < k \<and> k \<le> length rest"
proof -
  assume a: "em_dash_len rest = Some k"
  have "length (takeWhile (\<lambda>c. c = CHR ''-'') rest) \<le> length rest"
    by (rule length_takeWhile_le)
  with a show ?thesis
    by (auto simp: em_dash_len_def Let_def split: if_splits)
qed

lemma wordsep_match_bounds:
  "wordsep_match behind rest = Some n \<Longrightarrow> 0 < n \<and> n \<le> length rest"
proof -
  assume a: "wordsep_match behind rest = Some n"
  have w: "length (takeWhile is_whitespace rest) \<le> length rest"
    by (rule length_takeWhile_le)
  show ?thesis
  proof (cases "1 \<le> length (takeWhile is_whitespace rest)")
    case True
    with a w show ?thesis by (simp add: wordsep_match_def Let_def)
  next
    case False
    note nw = this
    show ?thesis
    proof (cases "match_em_dash behind rest")
      case (Some k)
      with a nw have "n = k" by (simp add: wordsep_match_def Let_def)
      moreover from Some have "em_dash_len rest = Some k"
        by (auto simp: match_em_dash_def split: list.splits if_splits)
      ultimately show ?thesis using em_dash_len_bounds by blast
    next
      case None
      with a nw obtain c cs m where r: "rest = c # cs" and m: "word_tail (c # behind) cs = Some m"
        and n: "n = Suc m"
        by (auto simp: wordsep_match_def Let_def split: list.splits if_splits)
      from word_tail_le[OF m] r n show ?thesis by simp
    qed
  qed
qed

termination re_split
proof (relation "measure (\<lambda>(behind, pending, rest). length rest)")
  show "wf (measure (\<lambda>(behind, pending, rest). length rest))" by simp
next
  fix behind pending :: string and c cs
  show "((c # behind, pending @ [c], cs), (behind, pending, c # cs))
          \<in> measure (\<lambda>(behind, pending, rest). length rest)"
    by simp
next
  fix behind pending :: string and c cs n
  assume "wordsep_match behind (c # cs) = Some n"
  then have "0 < n" using wordsep_match_bounds by blast
  then show "((rev (take n (c # cs)) @ behind, [], drop n (c # cs)), (behind, pending, c # cs))
          \<in> measure (\<lambda>(behind, pending, rest). length rest)"
    by simp
qed

lemma take_fitting_measure:
  "take_fitting width cur_line cur_len chunks = (cl, n, rest) \<Longrightarrow>
     chunk_measure rest \<le> chunk_measure chunks"
proof (induction chunks arbitrary: cur_line cur_len)
  case Nil
  then show ?case by simp
next
  case (Cons c cs)
  show ?case
  proof (cases "cur_len + length c \<le> width")
    case True
    with Cons.prems have "take_fitting width (cur_line @ [c]) (cur_len + length c) cs = (cl, n, rest)"
      by simp
    from Cons.IH[OF this] show ?thesis by (simp add: chunk_measure_def)
  next
    case False
    with Cons.prems show ?thesis by simp
  qed
qed

lemma take_fitting_stuck:
  "take_fitting width cur_line cur_len (c # cs) = (cl, n, rest) \<Longrightarrow>
     chunk_measure rest < chunk_measure (c # cs) \<or>
     (rest = c # cs \<and> cl = cur_line \<and> n = cur_len \<and> width < cur_len + length c)"
proof (cases "cur_len + length c \<le> width")
  case True
  assume "take_fitting width cur_line cur_len (c # cs) = (cl, n, rest)"
  with True have "take_fitting width (cur_line @ [c]) (cur_len + length c) cs = (cl, n, rest)"
    by simp
  from take_fitting_measure[OF this] show ?thesis by (simp add: chunk_measure_def)
next
  case False
  assume "take_fitting width cur_line cur_len (c # cs) = (cl, n, rest)"
  with False show ?thesis by simp
qed

lemma rfind_hyphen_less: "rfind_hyphen chunk i = Some h \<Longrightarrow> h < i"
  by (induction i) (auto split: if_splits)

lemma long_word_end_le: "long_word_end chunk space_left \<le> space_left"
  by (auto simp: long_word_end_def dest: rfind_hyphen_less split: option.splits)

lemma long_word_end_pos: "0 < space_left \<Longrightarrow> 0 < long_word_end chunk space_left"
  by (auto simp: long_word_end_def split: option.splits)

lemma wrap_line_decreases:
  assumes "chunks \<noteq> []" and "wrap_line width lines chunks = (lines', chunks')"
  shows "chunk_measure chunks' < chunk_measure chunks"
proof -
  obtain c cs where chunks: "chunks = c # cs" using assms(1) by (cases chunks) auto
  define chunks1 where "chunks1 = (case chunks of [] \<Rightarrow> [] | c # cs \<Rightarrow> if strip_is_empty c \<and> lines \<noteq> [] then cs else chunks)"
  obtain cl1 n1 chunks2 where tf: "take_fitting width [] 0 chunks1 = (cl1, n1, chunks2)"
    by (cases "take_fitting width [] 0 chunks1") auto
  define step where "step = (case chunks2 of
               [] \<Rightarrow> (cl1, chunks2)
             | chunk # others \<Rightarrow>
                 if length chunk > width
                 then handle_long_word chunk others cl1 n1 width
                 else (cl1, chunks2))"
  have c3: "chunks' = snd step"
    using assms(2) tf
    by (simp add: wrap_line_def chunks1_def[symmetric] step_def[symmetric] Let_def split: prod.splits)
  have le1: "chunk_measure chunks1 \<le> chunk_measure chunks"
    by (simp add: chunks1_def chunks chunk_measure_def)
  have le2: "chunk_measure chunks2 \<le> chunk_measure chunks1"
    using take_fitting_measure[OF tf] .
  have le3: "chunk_measure (snd step) \<le> chunk_measure chunks2"
    by (auto simp: step_def handle_long_word_def Let_def chunk_measure_def split: list.splits)
  show ?thesis
  proof (cases "chunks1 = chunks")
    case False
    then have "chunks1 = cs" by (auto simp: chunks1_def chunks split: if_splits)
    then have "chunk_measure chunks1 < chunk_measure chunks"
      by (simp add: chunks chunk_measure_def)
    with le2 le3 c3 show ?thesis by simp
  next
    case True
    with tf chunks have "take_fitting width [] 0 (c # cs) = (cl1, n1, chunks2)" by simp
    from take_fitting_stuck[OF this]
    show ?thesis
    proof
      assume "chunk_measure chunks2 < chunk_measure (c # cs)"
      with le3 c3 chunks show ?thesis by simp
    next
      assume st: "chunks2 = c # cs \<and> cl1 = [] \<and> n1 = 0 \<and> width < 0 + length c"
      then have long: "length c > width" by simp
      let ?sl = "if width < 1 then 1 else width - 0"
      have pos: "0 < long_word_end c ?sl" by (rule long_word_end_pos) simp
      have "step = handle_long_word c cs [] 0 width"
        using st long by (simp add: step_def)
      then have "snd step = drop (long_word_end c ?sl) c # cs"
        by (simp add: handle_long_word_def Let_def)
      moreover have "length (drop (long_word_end c ?sl) c) < length c"
        using pos long by simp
      ultimately show ?thesis using c3 chunks by (simp add: chunk_measure_def)
    qed
  qed
qed

termination wrap_loop
proof (relation "measure (\<lambda>(width, lines, chunks). chunk_measure chunks)")
  show "wf (measure (\<lambda>(width, lines, chunks). chunk_measure chunks))" by simp
next
  fix width lines c cs lines' chunks'
  assume "(lines', chunks') = wrap_line width lines (c # cs)"
  then have "wrap_line width lines (c # cs) = (lines', chunks')" by simp
  from wrap_line_decreases[OF _ this]
  show "((width, lines', chunks'), (width, lines, c # cs))
          \<in> measure (\<lambda>(width, lines, chunks). chunk_measure chunks)"
    by simp
qed

section \<open>Properties of the Unit Evaluator\<close>

lemma apply_guardrail_calls:
  "fst (apply_guardrail svc cs text src gid gver) = cs @ [guardrail_request gid gver src text]"
  by (simp add: apply_guardrail_def guardrail_request_def Let_def)

lemma apply_guardrail_pair:
  "apply_guardrail svc cs text src gid gver =
     (cs @ [guardrail_request gid gver src text], snd (apply_guardrail svc cs text src gid gver))"
  by (metis apply_guardrail_calls prod.collapse)

lemma apply_guardrail_blocked_action:
  "snd (apply_guardrail svc cs text src gid gver) = Inr (True, alt, response) \<Longrightarrow>
     action response = ''GUARDRAIL_INTERVENED''"
  by (auto simp: apply_guardrail_def Let_def split: sum.splits if_splits)

lemma check_severe_violations_pos:
  "0 < check_severe_violations vs \<longleftrightarrow> list_ex (\<lambda>v. violation_action v = ''BLOCKED'') vs"
  by (induction vs) (auto simp: check_severe_violations_def)

lemma sum_list_pos_iff: "0 < sum_list (ns :: nat list) \<longleftrightarrow> list_ex (\<lambda>n. 0 < n) ns"
  by (induction ns) auto

lemma assessment_blocked_findings:
  "list_ex (\<lambda>n. 0 < n) (assessment_blocked a) \<longleftrightarrow>
     list_ex (\<lambda>v. violation_action v = ''BLOCKED'') (findings a)"
  by (simp add: assessment_blocked_def findings_def check_severe_violations_pos
        split: option.splits)

lemma is_policy_assessement_blocked_iff:
  "is_policy_assessement_blocked as \<longleftrightarrow> has_blocking_finding as"
proof -
  have "list_ex (\<lambda>n. 0 < n) (concat (map assessment_blocked as)) \<longleftrightarrow>
        list_ex (\<lambda>v. violation_action v = ''BLOCKED'') (concat (map findings as))"
    by (induction as) (simp_all add: assessment_blocked_findings)
  then show ?thesis
    by (simp add: is_policy_assessement_blocked_def has_blocking_finding_def sum_list_pos_iff Let_def)
qed

lemma pass_service_verdict:
  "snd (apply_guardrail pass_service cs text src gid gver) = Inr (False, text, none_response)"
  by (simp add: apply_guardrail_def pass_service_def none_response_def Let_def)

lemma blocked_response_blocked: "is_policy_assessement_blocked (assessments blocked_response)"
  by (simp add: is_policy_assessement_blocked_def assessment_blocked_def
        check_severe_violations_def blocked_response_def blocking_assessment_def)

lemma block_service_verdict:
  "snd (apply_guardrail block_service cs text src gid gver) = Inr (True, ''Sorry'', blocked_response)"
  using blocked_response_blocked
  by (simp add: apply_guardrail_def block_service_def Let_def) (simp add: blocked_response_def)

text \<open>
  What \<open>apply_guardrail\<close> makes of any response: the assessments are looked at only
  when the action is \<open>GUARDRAIL_INTERVENED\<close>, and the replacement text is then the outputs
  joined by spaces.
\<close>

lemma apply_guardrail_verdict:
  assumes "svc cs (guardrail_request gid gver src text) = Inr response"
  shows "\<exists>is_blocked alt.
           snd (apply_guardrail svc cs text src gid gver) = Inr (is_blocked, alt, response) \<and>
           (is_blocked \<longleftrightarrow>
              action response = ''GUARDRAIL_INTERVENED'' \<and> has_blocking_finding (assessments response)) \<and>
           (action response = ''GUARDRAIL_INTERVENED'' \<longrightarrow> alt = join '' '' (outputs response)) \<and>
           (action response \<noteq> ''GUARDRAIL_INTERVENED'' \<longrightarrow> alt = text \<and> \<not> is_blocked)"
  using assms
  by (simp add: apply_guardrail_def guardrail_request_def Let_def is_policy_assessement_blocked_iff)

lemma none_response_conforming: "conforming none_response"
  by (simp add: conforming_def none_response_def has_blocking_finding_def)

lemma blocked_response_conforming: "conforming blocked_response"
  by (simp add: conforming_def blocked_response_def)

lemma blocked_response_finding: "has_blocking_finding (assessments blocked_response)"
  by (simp add: has_blocking_finding_def blocked_response_def blocking_assessment_def findings_def)

text \<open>
  C6. For every Unit Evaluator call that the service answers within its contract, the
  result is blocked if and only if at least one finding across all sub-policy
  assessments carries the action \<open>BLOCKED\<close>; and whenever the external action is \<open>NONE\<close>,
  the replacement text is the input verbatim and blocked is false.
\<close>

theorem unit_evaluator_blocked_iff_finding:
  assumes "svc cs (guardrail_request gid gver src text) = Inr response"
      and "conforming response"
  shows "\<exists>is_blocked alt.
           snd (apply_guardrail svc cs text src gid gver) = Inr (is_blocked, alt, response) \<and>
           (is_blocked \<longleftrightarrow> has_blocking_finding (assessments response)) \<and>
           (action response = ''NONE'' \<longrightarrow> alt = text \<and> \<not> is_blocked)"
  using assms
  by (auto simp: apply_guardrail_def guardrail_request_def Let_def conforming_def
        is_policy_assessement_blocked_iff)

theorem unit_evaluator_blocked_iff_finding_witness:
  "block_service [] (guardrail_request ''g'' ''DRAFT'' ''INPUT'' ''hello'') = Inr blocked_response \<and>
   conforming blocked_response \<and>
   has_blocking_finding (assessments blocked_response) \<and>
   (\<exists>alt. snd (apply_guardrail block_service [] ''hello'' ''INPUT'' ''g'' ''DRAFT'') =
            Inr (True, alt, blocked_response)) \<and>
   pass_service [] (guardrail_request ''g'' ''DRAFT'' ''INPUT'' ''hello'') = Inr none_response \<and>
   conforming none_response \<and>
   action none_response = ''NONE'' \<and>
   snd (apply_guardrail pass_service [] ''hello'' ''INPUT'' ''g'' ''DRAFT'') =
     Inr (False, ''hello'', none_response)"
proof -
  have h1: "block_service [] (guardrail_request ''g'' ''DRAFT'' ''INPUT'' ''hello'') = Inr blocked_response"
    by (simp add: block_service_def)
  have f: "has_blocking_finding (assessments blocked_response)"
    by (rule blocked_response_finding)
  from unit_evaluator_blocked_iff_finding[of block_service "[]" "''g''" "''DRAFT''" "''INPUT''" "''hello''",
      OF h1 blocked_response_conforming] f
  have a: "\<exists>alt. snd (apply_guardrail block_service [] ''hello'' ''INPUT'' ''g'' ''DRAFT'') =
            Inr (True, alt, blocked_response)"
    by auto
  have h2: "pass_service [] (guardrail_request ''g'' ''DRAFT'' ''INPUT'' ''hello'') = Inr none_response"
    by (simp add: pass_service_def)
  have n: "action none_response = ''NONE''"
    by (simp add: none_response_def)
  from unit_evaluator_blocked_iff_finding[of pass_service "[]" "''g''" "''DRAFT''" "''INPUT''" "''hello''",
      OF h2 none_response_conforming] n
  have b: "snd (apply_guardrail pass_service [] ''hello'' ''INPUT'' ''g'' ''DRAFT'') =
     Inr (False, ''hello'', none_response)"
    by auto
  from h1 blocked_response_conforming f a h2 none_response_conforming n b show ?thesis
    by blast
qed

text \<open>
  C8, as amended. The Unit Evaluator performs no local validation of the content
  length: for content of any length it sends exactly one request to the external
  service; a failure of that call is surfaced at once, without a retry, and an answer
  is returned with the verdict computed from it.
\<close>

theorem apply_guardrail_sends_any_length:
  "fst (apply_guardrail svc cs text src gid gver) = cs @ [guardrail_request gid gver src text] \<and>
   (\<forall>e. svc cs (guardrail_request gid gver src text) = Inl e \<longrightarrow>
      snd (apply_guardrail svc cs text src gid gver) = Inl e) \<and>
   (\<forall>response. svc cs (guardrail_request gid gver src text) = Inr response \<longrightarrow>
      (\<exists>is_blocked alt.
         snd (apply_guardrail svc cs text src gid gver) = Inr (is_blocked, alt, response)))"
  by (auto simp: apply_guardrail_def guardrail_request_def Let_def)

theorem apply_guardrail_sends_any_length_witness:
  "failing_service [] (guardrail_request ''g'' ''DRAFT'' ''INPUT'' (replicate 25001 CHR ''a'')) =
     Inl (ClientError ''ThrottlingException'') \<and>
   apply_guardrail failing_service [] (replicate 25001 CHR ''a'') ''INPUT'' ''g'' ''DRAFT'' =
     ([guardrail_request ''g'' ''DRAFT'' ''INPUT'' (replicate 25001 CHR ''a'')],
      Inl (ClientError ''ThrottlingException''))"
proof -
  have h: "failing_service [] (guardrail_request ''g'' ''DRAFT'' ''INPUT'' (replicate 25001 CHR ''a'')) =
     Inl (ClientError ''ThrottlingException'')"
    by (simp add: failing_service_def)
  from apply_guardrail_sends_any_length[of failing_service "[]" "replicate 25001 CHR ''a''"
      "''INPUT''" "''g''" "''DRAFT''"] h
  have "fst (apply_guardrail failing_service [] (replicate 25001 CHR ''a'') ''INPUT'' ''g'' ''DRAFT'') =
      [guardrail_request ''g'' ''DRAFT'' ''INPUT'' (replicate 25001 CHR ''a'')]"
    and "snd (apply_guardrail failing_service [] (replicate 25001 CHR ''a'') ''INPUT'' ''g'' ''DRAFT'') =
      Inl (ClientError ''ThrottlingException'')"
    by simp_all
  then have "apply_guardrail failing_service [] (replicate 25001 CHR ''a'') ''INPUT'' ''g'' ''DRAFT'' =
     ([guardrail_request ''g'' ''DRAFT'' ''INPUT'' (replicate 25001 CHR ''a'')],
      Inl (ClientError ''ThrottlingException''))"
    by (metis prod.collapse)
  with h show ?thesis by simp
qed

text \<open>
  C8 as stated fails: content of 25001 characters, beyond
  \<open>LIMIT_TEXT_UNIT * TEXT_UNIT\<close>, is sent to the service and its answer is returned.
\<close>

theorem oversized_content_is_sent:
  "length (replicate 25001 CHR ''a'') > LIMIT_TEXT_UNIT * TEXT_UNIT \<and>
   apply_guardrail pass_service [] (replicate 25001 CHR ''a'') ''INPUT'' ''g'' ''DRAFT'' =
     ([guardrail_request ''g'' ''DRAFT'' ''INPUT'' (replicate 25001 CHR ''a'')],
      Inr (False, replicate 25001 CHR ''a'', none_response))"
  by (simp add: apply_guardrail_def guardrail_request_def pass_service_def none_response_def
        Let_def TEXT_UNIT_def LIMIT_TEXT_UNIT_def)

section \<open>Properties of the Stream Dispatcher\<close>

lemma event_loop_append:
  "event_loop svc gid gver st (xs @ ys) =
     (case event_loop svc gid gver st xs of
        (Next, st') \<Rightarrow> event_loop svc gid gver st' ys
      | (Break, st') \<Rightarrow> (Break, st')
      | (Raise e, st') \<Rightarrow> (Raise e, st'))"
  by (induction xs arbitrary: st) (auto split: prod.splits signal.splits)

text \<open>What one text delta does to the dispatcher.\<close>

lemma on_delta_event:
  "on_event svc gid gver st (delta_event d) =
     (if length (buffer_text st @ d) > TEXT_UNIT then
        (case snd (apply_guardrail svc (calls st) (buffer_text st) ''OUTPUT'' gid gver) of
           Inl e \<Rightarrow>
             (Raise e,
              st\<lparr>calls := calls st @ [guardrail_request gid gver ''OUTPUT'' (buffer_text st)]\<rparr>)
         | Inr (is_blocked, alt_text, response) \<Rightarrow>
             (if is_blocked then Break else Next,
              st\<lparr>full_text := (if is_blocked then alt_text else full_text st @ alt_text),
                 applied_guardrails := applied_guardrails st @ [response],
                 buffer_text := d,
                 calls := calls st @ [guardrail_request gid gver ''OUTPUT'' (buffer_text st)]\<rparr>))
      else (Next, st\<lparr>buffer_text := buffer_text st @ d\<rparr>))"
proof -
  obtain r where p: "apply_guardrail svc (calls st) (buffer_text st) ''OUTPUT'' gid gver =
        (calls st @ [guardrail_request gid gver ''OUTPUT'' (buffer_text st)], r)"
    using apply_guardrail_pair by blast
  have a: "\<And>alt response. r = Inr (True, alt, response) \<Longrightarrow> action response = ''GUARDRAIL_INTERVENED''"
    using apply_guardrail_blocked_action[of svc "calls st" "buffer_text st" "''OUTPUT''" gid gver] p
    by simp
  show ?thesis
    by (auto simp: on_event_def start_phase_def delta_phase_def stop_phase_def metadata_phase_def
          delta_event_def p dest: a split: sum.splits)
qed

text \<open>What a \<open>messageStop\<close> does when the model, not the guardrail, ended the message.\<close>

lemma on_stop_event:
  "stopReason \<noteq> ''GUARDRAIL_INTERVENED'' \<Longrightarrow>
   on_event svc gid gver st (stop_event stopReason) =
     (case snd (apply_guardrail svc (calls st) (buffer_text st) ''OUTPUT'' gid gver) of
        Inl e \<Rightarrow>
          (Raise e,
           st\<lparr>calls := calls st @ [guardrail_request gid gver ''OUTPUT'' (buffer_text st)]\<rparr>)
      | Inr (is_blocked, alt_text, response) \<Rightarrow>
          (Next,
           if is_blocked
           then st\<lparr>applied_guardrails := applied_guardrails st @ [response],
                   calls := calls st @ [guardrail_request gid gver ''OUTPUT'' (buffer_text st)]\<rparr>
           else st\<lparr>calls := calls st @ [guardrail_request gid gver ''OUTPUT'' (buffer_text st)]\<rparr>))"
proof -
  assume n: "stopReason \<noteq> ''GUARDRAIL_INTERVENED''"
  obtain r where p: "apply_guardrail svc (calls st) (buffer_text st) ''OUTPUT'' gid gver =
        (calls st @ [guardrail_request gid gver ''OUTPUT'' (buffer_text st)], r)"
    using apply_guardrail_pair by blast
  show ?thesis
    using n
    by (auto simp: on_event_def start_phase_def delta_phase_def stop_phase_def metadata_phase_def
          usage_phase_def metrics_phase_def empty_metadata_def stop_event_def p split: sum.splits)
qed

lemma blocked_flush:
  assumes "messageStart ev \<noteq> Some None"
      and "contentBlockDelta ev = Some (Some (Some new_text))"
      and "length (buffer_text st @ new_text) > TEXT_UNIT"
      and "snd (apply_guardrail svc (calls st) (buffer_text st) ''OUTPUT'' gid gver) =
             Inr (True, alt_text, response)"
  shows "on_event svc gid gver st ev =
           (Break, st\<lparr>full_text := alt_text,
                      applied_guardrails := applied_guardrails st @ [response],
                      buffer_text := new_text,
                      calls := calls st @ [guardrail_request gid gver ''OUTPUT'' (buffer_text st)]\<rparr>)"
proof -
  have a: "action response = ''GUARDRAIL_INTERVENED''"
    using apply_guardrail_blocked_action[OF assms(4)] .
  have p: "apply_guardrail svc (calls st) (buffer_text st) ''OUTPUT'' gid gver =
        (calls st @ [guardrail_request gid gver ''OUTPUT'' (buffer_text st)], Inr (True, alt_text, response))"
    using apply_guardrail_pair[of svc "calls st" "buffer_text st" "''OUTPUT''" gid gver] assms(4)
    by simp
  have s: "start_phase ev = None"
    using assms(1) by (simp add: start_phase_def split: option.splits)
  show ?thesis
    using assms(2,3) a
    by (simp add: on_event_def s delta_phase_def stop_phase_def p)
qed

text \<open>An event is missing an expected field exactly when one of its reads raises.\<close>

lemma malformed_iff:
  "malformed ev \<longleftrightarrow>
     start_phase ev \<noteq> None \<or> contentBlockDelta ev = Some None \<or>
     contentBlockDelta ev = Some (Some None) \<or> messageStop ev = Some None \<or>
     metadata_phase ev \<noteq> None"
  by (auto simp: malformed_def start_phase_def metadata_phase_def usage_phase_def
        metrics_phase_def split: option.splits)

text \<open>
  When the delta phase raises nothing, the delta was well-formed, the \<open>metadata\<close> is as
  it was, and the \<open>messageStop\<close> is as it was or carries \<open>GUARDRAIL_INTERVENED\<close>.
\<close>

lemma delta_phase_passed:
  assumes "delta_phase svc gid gver st ev = (None, ev', st')"
  shows "contentBlockDelta ev \<noteq> Some None \<and> contentBlockDelta ev \<noteq> Some (Some None) \<and>
         metadata ev' = metadata ev \<and>
         (messageStop ev' = messageStop ev \<or> messageStop ev' = Some (Some ''GUARDRAIL_INTERVENED''))"
proof -
  obtain r where p: "apply_guardrail svc (calls st) (buffer_text st) ''OUTPUT'' gid gver =
        (calls st @ [guardrail_request gid gver ''OUTPUT'' (buffer_text st)], r)"
    using apply_guardrail_pair by blast
  have a: "\<And>alt response. r = Inr (True, alt, response) \<Longrightarrow> action response = ''GUARDRAIL_INTERVENED''"
    using apply_guardrail_blocked_action[of svc "calls st" "buffer_text st" "''OUTPUT''" gid gver] p
    by simp
  show ?thesis
    using assms
    by (auto simp: delta_phase_def p dest: a split: option.splits if_splits sum.splits)
qed

text \<open>
  When the stop phase goes on, the \<open>messageStop\<close> was absent or carried a stop reason
  other than \<open>GUARDRAIL_INTERVENED\<close>, and the reads of the metadata phase are as before.
\<close>

lemma metadata_phase_guardrails_usage:
  "metadata_phase
     (ev\<lparr>metadata := Some ((case metadata ev of None \<Rightarrow> empty_metadata | Some md \<Rightarrow> md)
                              \<lparr>guardrails_usage := g\<rparr>)\<rparr>) = metadata_phase ev"
proof -
  have u: "usage_phase (md\<lparr>guardrails_usage := g\<rparr>) = usage_phase md" for md
    by (simp add: usage_phase_def)
  have m: "metrics_phase (md\<lparr>guardrails_usage := g\<rparr>) = metrics_phase md" for md
    by (simp add: metrics_phase_def)
  have e: "usage_phase empty_metadata = None" "metrics_phase empty_metadata = None"
    by (simp_all add: usage_phase_def metrics_phase_def empty_metadata_def)
  show ?thesis
    by (cases "metadata ev") (simp_all add: metadata_phase_def u m e split: option.splits)
qed

lemma stop_phase_passed:
  assumes "stop_phase svc gid gver st ev = (Next, ev', st')"
  shows "messageStop ev \<noteq> Some None \<and> messageStop ev \<noteq> Some (Some ''GUARDRAIL_INTERVENED'') \<and>
         metadata_phase ev' = metadata_phase ev"
proof (cases "messageStop ev")
  case None
  with assms show ?thesis by (simp add: stop_phase_def)
next
  case (Some o1)
  show ?thesis
  proof (cases o1)
    case None
    with Some assms show ?thesis by (simp add: stop_phase_def)
  next
    case o1: (Some stopReason)
    show ?thesis
    proof (cases "stopReason = ''GUARDRAIL_INTERVENED''")
      case True
      with Some o1 assms show ?thesis by (simp add: stop_phase_def)
    next
      case False
      obtain cs r where p: "apply_guardrail svc (calls st) (buffer_text st) ''OUTPUT'' gid gver = (cs, r)"
        by (cases "apply_guardrail svc (calls st) (buffer_text st) ''OUTPUT'' gid gver") auto
      show ?thesis
      proof (cases r)
        case (Inl e)
        with Some o1 False p assms show ?thesis by (simp add: stop_phase_def)
      next
        case (Inr v)
        obtain b alt resp where v: "v = (b, alt, resp)" by (cases v) auto
        show ?thesis
        proof (cases b)
          case True
          with Some o1 False p Inr v assms
          have "ev' = ev\<lparr>metadata := Some ((case metadata ev of None \<Rightarrow> empty_metadata | Some md \<Rightarrow> md)
                              \<lparr>guardrails_usage := Some (response_usage resp)\<rparr>)\<rparr>"
            by (simp add: stop_phase_def)
          with Some o1 False show ?thesis
            by (simp add: metadata_phase_guardrails_usage)
        next
          case b: False
          with Some o1 False p Inr v assms have "ev' = ev" by (simp add: stop_phase_def)
          with Some o1 False show ?thesis by simp
        qed
      qed
    qed
  qed
qed

lemma malformed_not_next:
  assumes "malformed ev"
  shows "fst (on_event svc gid gver st ev) \<noteq> Next"
proof (cases "start_phase ev")
  case (Some e)
  then show ?thesis by (simp add: on_event_def)
next
  case None
  obtain eo ev' st' where d: "delta_phase svc gid gver st ev = (eo, ev', st')"
    by (cases "delta_phase svc gid gver st ev") auto
  show ?thesis
  proof (cases eo)
    case (Some e)
    with None d show ?thesis by (simp add: on_event_def)
  next
    case eo: None
    from delta_phase_passed[OF d[unfolded eo]]
    have c: "contentBlockDelta ev \<noteq> Some None" "contentBlockDelta ev \<noteq> Some (Some None)"
      and m: "metadata ev' = metadata ev"
      and ms: "messageStop ev' = messageStop ev \<or> messageStop ev' = Some (Some ''GUARDRAIL_INTERVENED'')"
      by simp_all
    obtain sig ev'' st'' where s: "stop_phase svc gid gver st' ev' = (sig, ev'', st'')"
      by (cases "stop_phase svc gid gver st' ev'") auto
    show ?thesis
    proof (cases sig)
      case Next
      from stop_phase_passed[OF s[unfolded Next]]
      have n1: "messageStop ev' \<noteq> Some None"
        and n2: "messageStop ev' \<noteq> Some (Some ''GUARDRAIL_INTERVENED'')"
        and mp: "metadata_phase ev'' = metadata_phase ev'"
        by simp_all
      from ms n1 n2 have "messageStop ev \<noteq> Some None" by auto
      with assms None c have "metadata_phase ev \<noteq> None"
        by (simp add: malformed_iff)
      moreover have "metadata_phase ev' = metadata_phase ev"
        using m by (simp add: metadata_phase_def)
      ultimately obtain e where "metadata_phase ev'' = Some e"
        using mp by auto
      with None d eo s Next show ?thesis by (simp add: on_event_def)
    next
      case Break
      with None d eo s show ?thesis by (simp add: on_event_def)
    next
      case (Raise e)
      with None d eo s show ?thesis by (simp add: on_event_def)
    qed
  qed
qed

lemma start_phase_key_error: "start_phase ev = Some e \<Longrightarrow> e = KeyError ''role''"
  by (simp add: start_phase_def split: option.splits)

lemma metadata_phase_key_error: "metadata_phase ev = Some e \<Longrightarrow> \<exists>k. e = KeyError k"
  by (auto simp: metadata_phase_def usage_phase_def metrics_phase_def
        split: option.splits if_splits)

lemma malformed_key_error:
  assumes "malformed ev" and "\<not> carries_text ev" and "\<not> carries_stop_reason ev"
  shows "\<exists>k. on_event svc gid gver st ev = (Raise (KeyError k), st)"
proof (cases "start_phase ev")
  case (Some e)
  with start_phase_key_error[OF Some] show ?thesis by (simp add: on_event_def)
next
  case None
  from assms(2) consider "contentBlockDelta ev = None" | "contentBlockDelta ev = Some None"
    | "contentBlockDelta ev = Some (Some None)"
    by (auto simp: carries_text_def split: option.splits)
  then show ?thesis
  proof cases
    case 1
    then have d: "delta_phase svc gid gver st ev = (None, ev, st)"
      by (simp add: delta_phase_def)
    from assms(3) consider "messageStop ev = None" | "messageStop ev = Some None"
      by (auto simp: carries_stop_reason_def split: option.splits)
    then show ?thesis
    proof cases
      case 1
      then have s: "stop_phase svc gid gver st ev = (Next, ev, st)"
        by (simp add: stop_phase_def)
      from assms(1) None \<open>contentBlockDelta ev = None\<close> 1 obtain e where
        m: "metadata_phase ev = Some e"
        by (auto simp: malformed_iff)
      from metadata_phase_key_error[OF m] obtain k where "e = KeyError k" by blast
      with None d s m show ?thesis by (simp add: on_event_def)
    next
      case 2
      then have "stop_phase svc gid gver st ev = (Raise (KeyError ''stopReason''), ev, st)"
        by (simp add: stop_phase_def)
      with None d show ?thesis by (simp add: on_event_def)
    qed
  next
    case 2
    then have "delta_phase svc gid gver st ev = (Some (KeyError ''delta''), ev, st)"
      by (simp add: delta_phase_def)
    with None show ?thesis by (simp add: on_event_def)
  next
    case 3
    then have "delta_phase svc gid gver st ev = (Some (KeyError ''text''), ev, st)"
      by (simp add: delta_phase_def)
    with None show ?thesis by (simp add: on_event_def)
  qed
qed

lemma well_formed_skipped:
  assumes "\<not> malformed ev" and "contentBlockDelta ev = None" and "messageStop ev = None"
  shows "on_event svc gid gver st ev = (Next, st)"
proof -
  from assms(1) have "start_phase ev = None" "metadata_phase ev = None"
    by (simp_all add: malformed_iff)
  with assms(2,3) show ?thesis
    by (simp add: on_event_def delta_phase_def stop_phase_def)
qed

lemma first_delta_buffered:
  "event_loop svc gid gver initial [delta_event (replicate 1000 CHR ''a'')] = (Next, after_first_delta)"
  by (simp add: on_delta_event initial_def after_first_delta_def TEXT_UNIT_def)

text \<open>
  C4. Once a threshold-triggered flush is blocked, the loop breaks: the outcome of the
  stream is fixed by the events up to the triggering delta, whatever events follow, and
  the guardrail service has received exactly one request more than before that delta.
  Here \<open>pre\<close> are the events processed so far, \<open>ev\<close> carries the triggering delta (and
  no \<open>messageStart\<close> without \<open>role\<close>, which would raise before the delta is read) and
  \<open>rest\<close> are the events that follow.
\<close>

theorem blocked_flush_stops_stream:
  assumes "event_loop svc gid gver initial pre = (Next, st)"
      and "messageStart ev \<noteq> Some None"
      and "contentBlockDelta ev = Some (Some (Some new_text))"
      and "length (buffer_text st @ new_text) > TEXT_UNIT"
      and "snd (apply_guardrail svc (calls st) (buffer_text st) ''OUTPUT'' gid gver) =
             Inr (True, alt_text, response)"
  shows "run_stream svc gid gver (Some (pre @ ev # rest)) =
           (Break, st\<lparr>full_text := alt_text,
                      applied_guardrails := applied_guardrails st @ [response],
                      buffer_text := new_text,
                      calls := calls st @ [guardrail_request gid gver ''OUTPUT'' (buffer_text st)]\<rparr>)"
  using assms(1) blocked_flush[OF assms(2,3,4,5)]
  by (simp add: run_stream_def event_loop_append)

theorem blocked_flush_stops_stream_witness:
  "event_loop block_service ''g'' ''1'' initial [delta_event (replicate 1000 CHR ''a'')] =
     (Next, after_first_delta) \<and>
   messageStart (delta_event ''b'') \<noteq> Some None \<and>
   contentBlockDelta (delta_event ''b'') = Some (Some (Some ''b'')) \<and>
   length (buffer_text after_first_delta @ ''b'') > TEXT_UNIT \<and>
   snd (apply_guardrail block_service (calls after_first_delta) (buffer_text after_first_delta)
          ''OUTPUT'' ''g'' ''1'') = Inr (True, ''Sorry'', blocked_response) \<and>
   run_stream block_service ''g'' ''1''
     (Some ([delta_event (replicate 1000 CHR ''a'')] @ delta_event ''b'' #
            [delta_event ''c'', stop_event ''end_turn''])) =
     (Break, \<lparr>full_text = ''Sorry'', buffer_text = ''b'',
              applied_guardrails = [blocked_response],
              calls = [guardrail_request ''g'' ''1'' ''OUTPUT'' (replicate 1000 CHR ''a'')]\<rparr>)"
proof -
  have h1: "event_loop block_service ''g'' ''1'' initial [delta_event (replicate 1000 CHR ''a'')] =
      (Next, after_first_delta)"
    by (rule first_delta_buffered)
  have h0: "messageStart (delta_event ''b'') \<noteq> Some None"
    by (simp add: delta_event_def)
  have h2: "contentBlockDelta (delta_event ''b'') = Some (Some (Some ''b''))"
    by (simp add: delta_event_def)
  have h3: "length (buffer_text after_first_delta @ ''b'') > TEXT_UNIT"
    by (simp add: after_first_delta_def TEXT_UNIT_def)
  have h4: "snd (apply_guardrail block_service (calls after_first_delta)
      (buffer_text after_first_delta) ''OUTPUT'' ''g'' ''1'') = Inr (True, ''Sorry'', blocked_response)"
    by (rule block_service_verdict)
  from blocked_flush_stops_stream[OF h1 h0 h2 h3 h4, of "[delta_event ''c'', stop_event ''end_turn'']"]
  have "run_stream block_service ''g'' ''1''
     (Some ([delta_event (replicate 1000 CHR ''a'')] @ delta_event ''b'' #
            [delta_event ''c'', stop_event ''end_turn''])) =
     (Break, \<lparr>full_text = ''Sorry'', buffer_text = ''b'',
              applied_guardrails = [blocked_response],
              calls = [guardrail_request ''g'' ''1'' ''OUTPUT'' (replicate 1000 CHR ''a'')]\<rparr>)"
    by (simp add: after_first_delta_def)
  with h1 h0 h2 h3 h4 show ?thesis by blast
qed

lemma first_flush_passed:
  "event_loop block_second_service ''g'' ''1'' initial
     [delta_event (replicate 1000 CHR ''a''), delta_event (replicate 1000 CHR ''b'')] =
   (Next, after_first_flush)"
  by (simp add: on_delta_event initial_def after_first_flush_def TEXT_UNIT_def
        apply_guardrail_def block_second_service_def none_response_def Let_def)

lemma second_flush_blocked:
  "snd (apply_guardrail block_second_service (calls after_first_flush)
          (buffer_text after_first_flush) ''OUTPUT'' ''g'' ''1'') =
   Inr (True, ''Sorry'', blocked_response)"
  using blocked_response_blocked
  by (simp add: apply_guardrail_def block_second_service_def after_first_flush_def Let_def)
     (simp add: blocked_response_def)

text \<open>
  C5, as amended. When a threshold-triggered flush returns a blocked result, the
  dispatcher sets the final text to that result's replacement text alone: the output
  accumulated from the previous flushes is discarded, and the result is recorded after
  the earlier ones in the evaluation history. As before, \<open>ev\<close> carries the triggering
  delta and no \<open>messageStart\<close> without \<open>role\<close>.
\<close>

theorem blocked_flush_replaces_output:
  assumes "event_loop svc gid gver initial pre = (Next, st)"
      and "messageStart ev \<noteq> Some None"
      and "contentBlockDelta ev = Some (Some (Some new_text))"
      and "length (buffer_text st @ new_text) > TEXT_UNIT"
      and "snd (apply_guardrail svc (calls st) (buffer_text st) ''OUTPUT'' gid gver) =
             Inr (True, alt_text, response)"
  shows "stream_conversation svc gid gver (Some (pre @ ev # rest)) =
           Inr (alt_text, applied_guardrails st @ [response])"
  using assms(1) blocked_flush[OF assms(2,3,4,5)]
  by (simp add: stream_conversation_def run_stream_def event_loop_append)

theorem blocked_flush_replaces_output_witness:
  "event_loop block_second_service ''g'' ''1'' initial
     [delta_event (replicate 1000 CHR ''a''), delta_event (replicate 1000 CHR ''b'')] =
     (Next, after_first_flush) \<and>
   messageStart (delta_event ''c'') \<noteq> Some None \<and>
   contentBlockDelta (delta_event ''c'') = Some (Some (Some ''c'')) \<and>
   length (buffer_text after_first_flush @ ''c'') > TEXT_UNIT \<and>
   snd (apply_guardrail block_second_service (calls after_first_flush)
          (buffer_text after_first_flush) ''OUTPUT'' ''g'' ''1'') =
     Inr (True, ''Sorry'', blocked_response) \<and>
   stream_conversation block_second_service ''g'' ''1''
     (Some ([delta_event (replicate 1000 CHR ''a''), delta_event (replicate 1000 CHR ''b'')] @
            delta_event ''c'' # [stop_event ''end_turn''])) =
     Inr (''Sorry'', [none_response, blocked_response])"
proof -
  have h1: "event_loop block_second_service ''g'' ''1'' initial
     [delta_event (replicate 1000 CHR ''a''), delta_event (replicate 1000 CHR ''b'')] =
     (Next, after_first_flush)"
    by (rule first_flush_passed)
  have h0: "messageStart (delta_event ''c'') \<noteq> Some None"
    by (simp add: delta_event_def)
  have h2: "contentBlockDelta (delta_event ''c'') = Some (Some (Some ''c''))"
    by (simp add: delta_event_def)
  have h3: "length (buffer_text after_first_flush @ ''c'') > TEXT_UNIT"
    by (simp add: after_first_flush_def TEXT_UNIT_def)
  have h4: "snd (apply_guardrail block_second_service (calls after_first_flush)
          (buffer_text after_first_flush) ''OUTPUT'' ''g'' ''1'') =
     Inr (True, ''Sorry'', blocked_response)"
    by (rule second_flush_blocked)
  from blocked_flush_replaces_output[OF h1 h0 h2 h3 h4, of "[stop_event ''end_turn'']"]
  have "stream_conversation block_second_service ''g'' ''1''
     (Some ([delta_event (replicate 1000 CHR ''a''), delta_event (replicate 1000 CHR ''b'')] @
            delta_event ''c'' # [stop_event ''end_turn''])) =
     Inr (''Sorry'', [none_response, blocked_response])"
    by (simp add: after_first_flush_def)
  with h1 h0 h2 h3 h4 show ?thesis by blast
qed

text \<open>
  C5 as stated fails: after a first flush has contributed 1000 characters, a blocked
  second flush returns the replacement text alone, not the accumulated output followed
  by it.
\<close>

theorem blocked_flush_discards_accumulated_output:
  "full_text after_first_flush = replicate 1000 CHR ''a'' \<and>
   stream_conversation block_second_service ''g'' ''1''
     (Some [delta_event (replicate 1000 CHR ''a''), delta_event (replicate 1000 CHR ''b''),
            delta_event ''c'', stop_event ''end_turn'']) =
     Inr (''Sorry'', [none_response, blocked_response]) \<and>
   ''Sorry'' \<noteq> replicate 1000 CHR ''a'' @ ''Sorry''"
proof -
  have "event_loop block_second_service ''g'' ''1'' initial
     ([delta_event (replicate 1000 CHR ''a''), delta_event (replicate 1000 CHR ''b'')] @
      [delta_event ''c'', stop_event ''end_turn'']) =
     (Break, after_first_flush\<lparr>full_text := ''Sorry'',
        applied_guardrails := applied_guardrails after_first_flush @ [blocked_response],
        buffer_text := ''c'',
        calls := calls after_first_flush @
          [guardrail_request ''g'' ''1'' ''OUTPUT'' (buffer_text after_first_flush)]\<rparr>)"
    unfolding event_loop_append first_flush_passed
    by (simp add: on_delta_event second_flush_blocked)
       (simp add: after_first_flush_def TEXT_UNIT_def)
  then have "stream_conversation block_second_service ''g'' ''1''
     (Some [delta_event (replicate 1000 CHR ''a''), delta_event (replicate 1000 CHR ''b''),
            delta_event ''c'', stop_event ''end_turn'']) =
     Inr (''Sorry'', [none_response, blocked_response])"
    by (simp add: stream_conversation_def run_stream_def after_first_flush_def)
  moreover have "length ''Sorry'' \<noteq> length (replicate 1000 CHR ''a'' @ ''Sorry'')" by simp
  then have "''Sorry'' \<noteq> replicate 1000 CHR ''a'' @ ''Sorry''" by metis
  ultimately show ?thesis by (simp add: after_first_flush_def)
qed

text \<open>
  C3, as amended. When a \<open>messageStop\<close> event whose stop reason is not
  \<open>GUARDRAIL_INTERVENED\<close> is processed, the dispatcher performs exactly one final
  evaluation of the remaining buffer, whether or not the buffer is empty; when that
  evaluation is blocked, its result is recorded in the evaluation history and the loop
  goes on to the next event. Here \<open>ev\<close> is any event with a stop reason and no text
  delta that is missing no expected field.
\<close>

theorem final_evaluation_at_message_stop:
  assumes "\<not> malformed ev"
      and "contentBlockDelta ev = None"
      and "messageStop ev = Some (Some stopReason)"
      and "stopReason \<noteq> ''GUARDRAIL_INTERVENED''"
  shows "calls (snd (on_event svc gid gver st ev)) =
           calls st @ [guardrail_request gid gver ''OUTPUT'' (buffer_text st)] \<and>
         (\<forall>alt response.
            snd (apply_guardrail svc (calls st) (buffer_text st) ''OUTPUT'' gid gver) =
              Inr (True, alt, response) \<longrightarrow>
            fst (on_event svc gid gver st ev) = Next \<and>
            applied_guardrails (snd (on_event svc gid gver st ev)) =
              applied_guardrails st @ [response])"
proof -
  obtain r where p: "apply_guardrail svc (calls st) (buffer_text st) ''OUTPUT'' gid gver =
        (calls st @ [guardrail_request gid gver ''OUTPUT'' (buffer_text st)], r)"
    using apply_guardrail_pair by blast
  from assms(1) have s: "start_phase ev = None" and m: "metadata_phase ev = None"
    by (simp_all add: malformed_iff)
  have d: "delta_phase svc gid gver st ev = (None, ev, st)"
    using assms(2) by (simp add: delta_phase_def)
  obtain sig ev' st' where sp: "stop_phase svc gid gver st ev = (sig, ev', st')"
    by (cases "stop_phase svc gid gver st ev") auto
  have c: "calls st' = calls st @ [guardrail_request gid gver ''OUTPUT'' (buffer_text st)]"
    using sp assms(3,4) by (auto simp: stop_phase_def p split: sum.splits if_splits)
  have o: "snd (on_event svc gid gver st ev) = st'"
    using s d sp by (cases sig) (auto simp: on_event_def split: option.splits)
  have b: "fst (on_event svc gid gver st ev) = Next \<and>
           applied_guardrails st' = applied_guardrails st @ [response]"
    if "r = Inr (True, alt, response)" for alt response
  proof -
    from that sp assms(3,4) have n: "sig = Next"
      and a: "applied_guardrails st' = applied_guardrails st @ [response]"
      by (auto simp: stop_phase_def p)
    from stop_phase_passed[OF sp[unfolded n]] m have "metadata_phase ev' = None" by simp
    with s d sp n a show ?thesis by (simp add: on_event_def)
  qed
  from c o b show ?thesis by (auto simp: p)
qed

theorem final_evaluation_at_message_stop_witness:
  "\<not> malformed (stop_event ''end_turn'') \<and>
   contentBlockDelta (stop_event ''end_turn'') = None \<and>
   messageStop (stop_event ''end_turn'') = Some (Some ''end_turn'') \<and>
   ''end_turn'' \<noteq> ''GUARDRAIL_INTERVENED'' \<and>
   calls (snd (on_event block_service ''g'' ''1'' after_first_delta (stop_event ''end_turn''))) =
     [guardrail_request ''g'' ''1'' ''OUTPUT'' (replicate 1000 CHR ''a'')] \<and>
   fst (on_event block_service ''g'' ''1'' after_first_delta (stop_event ''end_turn'')) = Next \<and>
   applied_guardrails (snd (on_event block_service ''g'' ''1'' after_first_delta (stop_event ''end_turn''))) =
     [blocked_response]"
proof -
  have h0: "\<not> malformed (stop_event ''end_turn'')"
    by (simp add: malformed_def stop_event_def)
  have h1: "contentBlockDelta (stop_event ''end_turn'') = None"
    by (simp add: stop_event_def)
  have h2: "messageStop (stop_event ''end_turn'') = Some (Some ''end_turn'')"
    by (simp add: stop_event_def)
  have h3: "''end_turn'' \<noteq> ''GUARDRAIL_INTERVENED''" by simp
  have v: "snd (apply_guardrail block_service (calls after_first_delta)
      (buffer_text after_first_delta) ''OUTPUT'' ''g'' ''1'') = Inr (True, ''Sorry'', blocked_response)"
    by (rule block_service_verdict)
  from final_evaluation_at_message_stop[OF h0 h1 h2 h3, of block_service "''g''" "''1''" after_first_delta] v
  have "calls (snd (on_event block_service ''g'' ''1'' after_first_delta (stop_event ''end_turn''))) =
          calls after_first_delta @
            [guardrail_request ''g'' ''1'' ''OUTPUT'' (buffer_text after_first_delta)]"
    and "fst (on_event block_service ''g'' ''1'' after_first_delta (stop_event ''end_turn'')) = Next"
    and "applied_guardrails (snd (on_event block_service ''g'' ''1'' after_first_delta (stop_event ''end_turn''))) =
          applied_guardrails after_first_delta @ [blocked_response]"
    by blast+
  with h0 h1 h2 h3 show ?thesis by (simp add: after_first_delta_def)
qed

text \<open>
  C3 as stated fails: a stream that carries no text still has its empty buffer
  evaluated when the message stops.
\<close>

theorem empty_buffer_is_evaluated:
  "run_stream pass_service ''g'' ''1'' (Some [stop_event ''end_turn'']) =
     (Next, \<lparr>full_text = [], buffer_text = [], applied_guardrails = [],
             calls = [guardrail_request ''g'' ''1'' ''OUTPUT'' []]\<rparr>)"
  by (simp add: run_stream_def on_stop_event pass_service_verdict initial_def)

text \<open>
  C9, as amended. An event that is missing an expected field (a \<open>messageStart\<close> without
  \<open>role\<close>, a \<open>contentBlockDelta\<close> without \<open>delta\<close> or \<open>delta.text\<close>, a \<open>messageStop\<close>
  without \<open>stopReason\<close>, a \<open>metadata.usage\<close> without one of its token counts, a
  \<open>metadata.metrics\<close> without \<open>latencyMs\<close>) is never skipped: the loop does not go on to
  the events that follow. When the event carries no text delta and no stop reason, the
  pass raises \<open>KeyError\<close> and leaves the variables as they were; in particular a
  \<open>contentBlockDelta\<close> without \<open>delta.text\<close> raises \<open>KeyError\<close> for \<open>text\<close>. An exception
  raised in the loop leaves \<open>stream_conversation\<close>, which returns neither text nor
  history. An event that is missing no field and has neither \<open>contentBlockDelta\<close> nor
  \<open>messageStop\<close> changes nothing, and the next event is processed.
\<close>

theorem malformed_event_is_not_skipped:
  "(malformed ev \<longrightarrow>
      fst (on_event svc gid gver st ev) \<noteq> Next \<and>
      event_loop svc gid gver st (ev # rest) = on_event svc gid gver st ev) \<and>
   (malformed ev \<and> \<not> carries_text ev \<and> \<not> carries_stop_reason ev \<longrightarrow>
      (\<exists>k. on_event svc gid gver st ev = (Raise (KeyError k), st))) \<and>
   (messageStart ev \<noteq> Some None \<and> contentBlockDelta ev = Some (Some None) \<longrightarrow>
      on_event svc gid gver st ev = (Raise (KeyError ''text''), st)) \<and>
   (event_loop svc gid gver initial pre = (Next, st) \<and>
    fst (on_event svc gid gver st ev) = Raise e \<longrightarrow>
      stream_conversation svc gid gver (Some (pre @ ev # rest)) = Inl e) \<and>
   (\<not> malformed ev \<and> contentBlockDelta ev = None \<and> messageStop ev = None \<longrightarrow>
      event_loop svc gid gver st (ev # rest) = event_loop svc gid gver st rest)"
proof -
  have a: "fst (on_event svc gid gver st ev) \<noteq> Next \<and>
      event_loop svc gid gver st (ev # rest) = on_event svc gid gver st ev" if "malformed ev"
  proof -
    from malformed_not_next[OF that] have n: "fst (on_event svc gid gver st ev) \<noteq> Next" .
    obtain sig st' where o: "on_event svc gid gver st ev = (sig, st')"
      by (cases "on_event svc gid gver st ev") auto
    with n show ?thesis by (cases sig) auto
  qed
  have b: "\<exists>k. on_event svc gid gver st ev = (Raise (KeyError k), st)"
    if "malformed ev \<and> \<not> carries_text ev \<and> \<not> carries_stop_reason ev"
    using that malformed_key_error by blast
  have c: "on_event svc gid gver st ev = (Raise (KeyError ''text''), st)"
    if "messageStart ev \<noteq> Some None \<and> contentBlockDelta ev = Some (Some None)"
    using that by (simp add: on_event_def start_phase_def delta_phase_def split: option.splits)
  have d: "stream_conversation svc gid gver (Some (pre @ ev # rest)) = Inl e"
    if "event_loop svc gid gver initial pre = (Next, st) \<and>
        fst (on_event svc gid gver st ev) = Raise e"
  proof -
    define st' where "st' = snd (on_event svc gid gver st ev)"
    from that have "on_event svc gid gver st ev = (Raise e, st')"
      unfolding st'_def by (metis prod.collapse)
    with that show ?thesis
      by (simp add: stream_conversation_def run_stream_def event_loop_append)
  qed
  have f: "event_loop svc gid gver st (ev # rest) = event_loop svc gid gver st rest"
    if "\<not> malformed ev \<and> contentBlockDelta ev = None \<and> messageStop ev = None"
    using that well_formed_skipped[of ev svc gid gver st] by simp
  from a b c d f show ?thesis by blast
qed

theorem malformed_event_is_not_skipped_witness:
  "malformed usage_without_tokens \<and> \<not> carries_text usage_without_tokens \<and>
   \<not> carries_stop_reason usage_without_tokens \<and>
   event_loop pass_service ''g'' ''1'' initial [delta_event ''Hello''] =
     (Next, initial\<lparr>buffer_text := ''Hello''\<rparr>) \<and>
   on_event pass_service ''g'' ''1'' (initial\<lparr>buffer_text := ''Hello''\<rparr>) usage_without_tokens =
     (Raise (KeyError ''inputTokens''), initial\<lparr>buffer_text := ''Hello''\<rparr>) \<and>
   event_loop pass_service ''g'' ''1'' (initial\<lparr>buffer_text := ''Hello''\<rparr>)
     [usage_without_tokens, stop_event ''end_turn''] =
     (Raise (KeyError ''inputTokens''), initial\<lparr>buffer_text := ''Hello''\<rparr>) \<and>
   stream_conversation pass_service ''g'' ''1''
     (Some ([delta_event ''Hello''] @ usage_without_tokens # [stop_event ''end_turn''])) =
     Inl (KeyError ''inputTokens'') \<and>
   \<not> malformed metadata_event \<and> contentBlockDelta metadata_event = None \<and>
   messageStop metadata_event = None \<and>
   event_loop pass_service ''g'' ''1'' initial [metadata_event] = (Next, initial)"
proof -
  let ?st = "initial\<lparr>buffer_text := ''Hello''\<rparr>"
  have h1: "malformed usage_without_tokens \<and> \<not> carries_text usage_without_tokens \<and>
      \<not> carries_stop_reason usage_without_tokens"
    by (simp add: malformed_def carries_text_def carries_stop_reason_def usage_without_tokens_def)
  have h2: "event_loop pass_service ''g'' ''1'' initial [delta_event ''Hello''] = (Next, ?st)"
    by (simp add: on_delta_event initial_def TEXT_UNIT_def)
  have h3: "\<not> malformed metadata_event \<and> contentBlockDelta metadata_event = None \<and>
      messageStop metadata_event = None"
    by (simp add: malformed_def metadata_event_def)
  have k: "on_event pass_service ''g'' ''1'' ?st usage_without_tokens =
      (Raise (KeyError ''inputTokens''), ?st)"
    by (simp add: on_event_def start_phase_def delta_phase_def stop_phase_def metadata_phase_def
          usage_phase_def usage_without_tokens_def)
  note t = malformed_event_is_not_skipped[of usage_without_tokens pass_service "''g''" "''1''" ?st
      "[stop_event ''end_turn'']" "[delta_event ''Hello'']" "KeyError ''inputTokens''"]
  from t h1 k have l: "event_loop pass_service ''g'' ''1'' ?st
      [usage_without_tokens, stop_event ''end_turn''] = (Raise (KeyError ''inputTokens''), ?st)"
    by simp
  from t h2 k have s: "stream_conversation pass_service ''g'' ''1''
     (Some ([delta_event ''Hello''] @ usage_without_tokens # [stop_event ''end_turn''])) =
     Inl (KeyError ''inputTokens'')"
    by simp
  from malformed_event_is_not_skipped[of metadata_event pass_service "''g''" "''1''" initial "[]"] h3
  have m: "event_loop pass_service ''g'' ''1'' initial [metadata_event] = (Next, initial)"
    by simp
  from h1 h2 k l s h3 m show ?thesis by simp
qed

text \<open>
  C9 as stated fails: an event without \<open>delta.text\<close> is not skipped. The events after it
  are not processed, no evaluation is requested, and \<open>stream_conversation\<close> raises
  \<open>KeyError\<close> instead of returning the text. A \<open>messageStart\<close> without \<open>role\<close> and a
  \<open>metadata.usage\<close> without token counts end the stream in the same way.
\<close>

theorem malformed_events_end_stream:
  "malformed delta_without_text \<and>
   run_stream pass_service ''g'' ''1''
     (Some [delta_without_text, delta_event ''Hello'', stop_event ''end_turn'']) =
     (Raise (KeyError ''text''), initial) \<and>
   stream_conversation pass_service ''g'' ''1''
     (Some [delta_without_text, delta_event ''Hello'', stop_event ''end_turn'']) =
     Inl (KeyError ''text'') \<and>
   malformed start_without_role \<and>
   stream_conversation pass_service ''g'' ''1''
     (Some [start_without_role, delta_event ''Hello'', stop_event ''end_turn'']) =
     Inl (KeyError ''role'') \<and>
   malformed usage_without_tokens \<and>
   stream_conversation pass_service ''g'' ''1''
     (Some [delta_event ''Hello'', usage_without_tokens, stop_event ''end_turn'']) =
     Inl (KeyError ''inputTokens'')"
proof -
  have m: "malformed delta_without_text" "malformed start_without_role"
      "malformed usage_without_tokens"
    by (simp_all add: malformed_def delta_without_text_def start_without_role_def
          usage_without_tokens_def)
  have t: "on_event pass_service ''g'' ''1'' st delta_without_text = (Raise (KeyError ''text''), st)"
    for st
    by (simp add: on_event_def start_phase_def delta_phase_def delta_without_text_def)
  have r: "on_event pass_service ''g'' ''1'' st start_without_role = (Raise (KeyError ''role''), st)"
    for st
    by (simp add: on_event_def start_phase_def start_without_role_def)
  have u: "on_event pass_service ''g'' ''1'' st usage_without_tokens =
      (Raise (KeyError ''inputTokens''), st)" for st
    by (simp add: on_event_def start_phase_def delta_phase_def stop_phase_def metadata_phase_def
          usage_phase_def usage_without_tokens_def)
  have a: "run_stream pass_service ''g'' ''1''
     (Some [delta_without_text, delta_event ''Hello'', stop_event ''end_turn'']) =
     (Raise (KeyError ''text''), initial)"
    by (simp add: run_stream_def t)
  have b: "stream_conversation pass_service ''g'' ''1''
     (Some [start_without_role, delta_event ''Hello'', stop_event ''end_turn'']) =
     Inl (KeyError ''role'')"
    by (simp add: stream_conversation_def run_stream_def r)
  have c: "stream_conversation pass_service ''g'' ''1''
     (Some [delta_event ''Hello'', usage_without_tokens, stop_event ''end_turn'']) =
     Inl (KeyError ''inputTokens'')"
    by (simp add: stream_conversation_def run_stream_def on_delta_event u initial_def TEXT_UNIT_def)
  from m a b c show ?thesis
    by (simp add: stream_conversation_def)
qed

lemma delta_phase_buffer:
  assumes "length (buffer_text st) \<le> TEXT_UNIT"
      and "\<forall>t. contentBlockDelta ev = Some (Some (Some t)) \<longrightarrow> length t \<le> TEXT_UNIT"
  shows "length (buffer_text (snd (snd (delta_phase svc gid gver st ev)))) \<le> TEXT_UNIT"
proof -
  obtain cs r where p: "apply_guardrail svc (calls st) (buffer_text st) ''OUTPUT'' gid gver = (cs, r)"
    by (cases "apply_guardrail svc (calls st) (buffer_text st) ''OUTPUT'' gid gver") auto
  show ?thesis
    using assms
    by (cases r) (auto simp: delta_phase_def p split: option.splits)
qed

lemma stop_phase_buffer:
  "buffer_text (snd (snd (stop_phase svc gid gver st ev))) = buffer_text st"
proof -
  obtain cs r where p: "apply_guardrail svc (calls st) (buffer_text st) ''OUTPUT'' gid gver = (cs, r)"
    by (cases "apply_guardrail svc (calls st) (buffer_text st) ''OUTPUT'' gid gver") auto
  show ?thesis
    by (cases r) (auto simp: stop_phase_def p split: option.splits)
qed

lemma on_event_buffer:
  assumes "length (buffer_text st) \<le> TEXT_UNIT"
      and "\<forall>t. contentBlockDelta ev = Some (Some (Some t)) \<longrightarrow> length t \<le> TEXT_UNIT"
  shows "length (buffer_text (snd (on_event svc gid gver st ev))) \<le> TEXT_UNIT"
proof (cases "start_phase ev")
  case (Some e)
  with assms(1) show ?thesis by (simp add: on_event_def)
next
  case None
  obtain eo ev' st' where d: "delta_phase svc gid gver st ev = (eo, ev', st')"
    by (cases "delta_phase svc gid gver st ev") auto
  from delta_phase_buffer[OF assms, of svc gid gver] d
  have b: "length (buffer_text st') \<le> TEXT_UNIT" by simp
  show ?thesis
  proof (cases eo)
    case eo: None
    obtain sig ev'' st'' where s: "stop_phase svc gid gver st' ev' = (sig, ev'', st'')"
      by (cases "stop_phase svc gid gver st' ev'") auto
    from stop_phase_buffer[of svc gid gver st' ev'] s b
    have b': "length (buffer_text st'') \<le> TEXT_UNIT" by simp
    from None d eo s b' show ?thesis
      by (cases sig) (auto simp: on_event_def split: option.splits)
  next
    case (Some e)
    with None d b show ?thesis by (simp add: on_event_def)
  qed
qed

lemma event_loop_buffer_bounded:
  assumes "length (buffer_text st) \<le> TEXT_UNIT"
      and "\<forall>ev\<in>set evs. \<forall>t. contentBlockDelta ev = Some (Some (Some t)) \<longrightarrow> length t \<le> TEXT_UNIT"
  shows "length (buffer_text (snd (event_loop svc gid gver st evs))) \<le> TEXT_UNIT"
  using assms
proof (induction evs arbitrary: st)
  case Nil
  then show ?case by simp
next
  case (Cons ev evs)
  have d: "\<forall>t. contentBlockDelta ev = Some (Some (Some t)) \<longrightarrow> length t \<le> TEXT_UNIT"
    using Cons.prems(2) by simp
  obtain sig st' where o: "on_event svc gid gver st ev = (sig, st')"
    by (cases "on_event svc gid gver st ev") auto
  from on_event_buffer[OF Cons.prems(1) d, of svc gid gver] o
  have b: "length (buffer_text st') \<le> TEXT_UNIT" by simp
  have rest: "\<forall>ev\<in>set evs. \<forall>t. contentBlockDelta ev = Some (Some (Some t)) \<longrightarrow> length t \<le> TEXT_UNIT"
    using Cons.prems(2) by simp
  show ?case
  proof (cases sig)
    case Next
    with o Cons.IH[OF b rest] show ?thesis by simp
  next
    case Break
    with o b show ?thesis by simp
  next
    case (Raise e)
    with o b show ?thesis by simp
  qed
qed

text \<open>
  C10, as amended. If the buffer starts within the threshold and no single delta is
  longer than \<open>TEXT_UNIT\<close>, then after any sequence of events, hence at the start of
  processing each incoming delta, the buffer's length does not exceed \<open>TEXT_UNIT\<close>. In
  general, whatever the length of the delta: when the buffer with the delta appended
  stays within \<open>TEXT_UNIT\<close> the buffer grows by the delta and no request is sent;
  otherwise the buffer as it stood before the delta is sent for evaluation and, unless
  that call raises, the buffer is reset to exactly the triggering delta.
\<close>

theorem buffer_within_threshold:
  "(length (buffer_text st) \<le> TEXT_UNIT \<and>
    (\<forall>ev\<in>set evs. \<forall>t. contentBlockDelta ev = Some (Some (Some t)) \<longrightarrow> length t \<le> TEXT_UNIT) \<longrightarrow>
    length (buffer_text (snd (event_loop svc gid gver st evs))) \<le> TEXT_UNIT) \<and>
   (length (buffer_text st @ d) \<le> TEXT_UNIT \<longrightarrow>
      on_event svc gid gver st (delta_event d) = (Next, st\<lparr>buffer_text := buffer_text st @ d\<rparr>)) \<and>
   (length (buffer_text st @ d) > TEXT_UNIT \<longrightarrow>
      calls (snd (on_event svc gid gver st (delta_event d))) =
        calls st @ [guardrail_request gid gver ''OUTPUT'' (buffer_text st)] \<and>
      ((\<exists>e. fst (on_event svc gid gver st (delta_event d)) = Raise e) \<or>
       buffer_text (snd (on_event svc gid gver st (delta_event d))) = d))"
proof -
  have a: "length (buffer_text st) \<le> TEXT_UNIT \<and>
    (\<forall>ev\<in>set evs. \<forall>t. contentBlockDelta ev = Some (Some (Some t)) \<longrightarrow> length t \<le> TEXT_UNIT) \<longrightarrow>
    length (buffer_text (snd (event_loop svc gid gver st evs))) \<le> TEXT_UNIT"
    using event_loop_buffer_bounded by blast
  have b: "length (buffer_text st @ d) \<le> TEXT_UNIT \<longrightarrow>
      on_event svc gid gver st (delta_event d) = (Next, st\<lparr>buffer_text := buffer_text st @ d\<rparr>)"
    by (simp add: on_delta_event)
  have c: "length (buffer_text st @ d) > TEXT_UNIT \<longrightarrow>
      calls (snd (on_event svc gid gver st (delta_event d))) =
        calls st @ [guardrail_request gid gver ''OUTPUT'' (buffer_text st)] \<and>
      ((\<exists>e. fst (on_event svc gid gver st (delta_event d)) = Raise e) \<or>
       buffer_text (snd (on_event svc gid gver st (delta_event d))) = d)"
    by (auto simp: on_delta_event split: sum.splits)
  from a b c show ?thesis by blast
qed

theorem buffer_within_threshold_witness:
  "length (buffer_text initial) \<le> TEXT_UNIT \<and>
   list_all (\<lambda>ev. contentBlockDelta ev = Some (Some (Some (replicate 1000 CHR ''a''))))
     [delta_event (replicate 1000 CHR ''a''), delta_event (replicate 1000 CHR ''a'')] \<and>
   length (replicate 1000 CHR ''a'') \<le> TEXT_UNIT \<and>
   length (buffer_text (snd (event_loop pass_service ''g'' ''1'' initial
      [delta_event (replicate 1000 CHR ''a''), delta_event (replicate 1000 CHR ''a'')]))) \<le> TEXT_UNIT \<and>
   length (buffer_text initial @ ''abc'') \<le> TEXT_UNIT \<and>
   on_event pass_service ''g'' ''1'' initial (delta_event ''abc'') =
     (Next, initial\<lparr>buffer_text := buffer_text initial @ ''abc''\<rparr>) \<and>
   length (buffer_text after_first_delta @ ''b'') > TEXT_UNIT \<and>
   calls (snd (on_event pass_service ''g'' ''1'' after_first_delta (delta_event ''b''))) =
     [guardrail_request ''g'' ''1'' ''OUTPUT'' (replicate 1000 CHR ''a'')] \<and>
   buffer_text (snd (on_event pass_service ''g'' ''1'' after_first_delta (delta_event ''b''))) = ''b''"
proof -
  let ?evs = "[delta_event (replicate 1000 CHR ''a''), delta_event (replicate 1000 CHR ''a'')]"
  have h1: "length (buffer_text initial) \<le> TEXT_UNIT" by (simp add: initial_def)
  have h2: "list_all (\<lambda>ev. contentBlockDelta ev = Some (Some (Some (replicate 1000 CHR ''a'')))) ?evs"
    by (simp add: delta_event_def)
  have h3: "length (replicate 1000 CHR ''a'') \<le> TEXT_UNIT" by (simp add: TEXT_UNIT_def)
  have h2': "\<forall>ev\<in>set ?evs. \<forall>t. contentBlockDelta ev = Some (Some (Some t)) \<longrightarrow> length t \<le> TEXT_UNIT"
    using h3 by (simp add: delta_event_def)
  have h4: "length (buffer_text initial @ ''abc'') \<le> TEXT_UNIT"
    by (simp add: initial_def TEXT_UNIT_def)
  have h5: "length (buffer_text after_first_delta @ ''b'') > TEXT_UNIT"
    by (simp add: after_first_delta_def TEXT_UNIT_def)
  have nr: "fst (on_event pass_service ''g'' ''1'' after_first_delta (delta_event ''b'')) = Next"
    using h5 by (simp add: on_delta_event pass_service_verdict)
  have a: "length (buffer_text (snd (event_loop pass_service ''g'' ''1'' initial ?evs))) \<le> TEXT_UNIT"
    using buffer_within_threshold[of initial ?evs pass_service "''g''" "''1''" "[]"] h1 h2'
    by blast
  have b: "on_event pass_service ''g'' ''1'' initial (delta_event ''abc'') =
     (Next, initial\<lparr>buffer_text := buffer_text initial @ ''abc''\<rparr>)"
    using buffer_within_threshold[of initial "[]" pass_service "''g''" "''1''" "''abc''"] h4
    by blast
  have c: "calls (snd (on_event pass_service ''g'' ''1'' after_first_delta (delta_event ''b''))) =
        calls after_first_delta @
          [guardrail_request ''g'' ''1'' ''OUTPUT'' (buffer_text after_first_delta)] \<and>
      ((\<exists>e. fst (on_event pass_service ''g'' ''1'' after_first_delta (delta_event ''b'')) = Raise e) \<or>
       buffer_text (snd (on_event pass_service ''g'' ''1'' after_first_delta (delta_event ''b''))) = ''b'')"
    using buffer_within_threshold[of after_first_delta "[]" pass_service "''g''" "''1''" "''b''"] h5
    by blast
  from c nr have c': "calls (snd (on_event pass_service ''g'' ''1'' after_first_delta (delta_event ''b''))) =
     [guardrail_request ''g'' ''1'' ''OUTPUT'' (replicate 1000 CHR ''a'')] \<and>
   buffer_text (snd (on_event pass_service ''g'' ''1'' after_first_delta (delta_event ''b''))) = ''b''"
    by (simp add: after_first_delta_def)
  from h1 h2 h3 a h4 b h5 c' show ?thesis by blast
qed

text \<open>
  C10 as stated fails: a single delta of 1001 characters becomes the buffer, which then
  exceeds \<open>TEXT_UNIT\<close> when the next delta arrives.
\<close>

theorem long_delta_exceeds_threshold:
  "buffer_text (snd (run_stream pass_service ''g'' ''1''
      (Some [delta_event (replicate 1001 CHR ''a'')]))) = replicate 1001 CHR ''a'' \<and>
   length (replicate 1001 CHR ''a'') > TEXT_UNIT"
  by (simp add: run_stream_def on_delta_event initial_def TEXT_UNIT_def pass_service_verdict)

lemma flushes_cover:
  "concat (threshold_flushes buffer deltas) @ residual_buffer buffer deltas = buffer @ concat deltas"
  by (induction deltas arbitrary: buffer) auto

lemma no_flush_short:
  "threshold_flushes buffer deltas = [] \<Longrightarrow> deltas \<noteq> [] \<Longrightarrow>
     length (buffer @ concat deltas) \<le> TEXT_UNIT"
proof (induction deltas arbitrary: buffer)
  case Nil
  then show ?case by simp
next
  case (Cons d ds)
  from Cons.prems(1) have le: "length (buffer @ d) \<le> TEXT_UNIT"
    and nf: "threshold_flushes (buffer @ d) ds = []"
    by (auto split: if_splits)
  show ?case
  proof (cases "ds = []")
    case True
    with le show ?thesis by simp
  next
    case False
    from Cons.IH[OF nf False] show ?thesis by simp
  qed
qed

lemma never_intervenes_verdict:
  assumes "never_intervenes svc"
  shows "\<exists>response. snd (apply_guardrail svc cs text src gid gver) = Inr (False, text, response)"
proof -
  from assms obtain response where
    "svc cs (guardrail_request gid gver src text) = Inr response"
    "action response \<noteq> ''GUARDRAIL_INTERVENED''"
    unfolding never_intervenes_def by blast
  then show ?thesis
    by (simp add: apply_guardrail_def guardrail_request_def Let_def)
qed

lemma pass_service_never_intervenes: "never_intervenes pass_service"
  by (simp add: never_intervenes_def pass_service_def none_response_def)

lemma deltas_without_intervention:
  assumes "never_intervenes svc"
  shows "\<exists>st'. event_loop svc gid gver st (map delta_event deltas) = (Next, st') \<and>
           buffer_text st' = residual_buffer (buffer_text st) deltas \<and>
           full_text st' @ buffer_text st' = full_text st @ buffer_text st @ concat deltas \<and>
           map content (calls st') =
             map content (calls st) @ threshold_flushes (buffer_text st) deltas"
proof (induction deltas arbitrary: st)
  case Nil
  show ?case by simp
next
  case (Cons d ds)
  show ?case
  proof (cases "length (buffer_text st @ d) > TEXT_UNIT")
    case True
    from never_intervenes_verdict[OF assms] obtain response where
      v: "snd (apply_guardrail svc (calls st) (buffer_text st) ''OUTPUT'' gid gver) =
            Inr (False, buffer_text st, response)"
      by blast
    let ?st1 = "st\<lparr>full_text := full_text st @ buffer_text st,
                   applied_guardrails := applied_guardrails st @ [response],
                   buffer_text := d,
                   calls := calls st @ [guardrail_request gid gver ''OUTPUT'' (buffer_text st)]\<rparr>"
    have o: "on_event svc gid gver st (delta_event d) = (Next, ?st1)"
      using True by (simp add: on_delta_event v)
    from Cons.IH[of ?st1] obtain st' where
      "event_loop svc gid gver ?st1 (map delta_event ds) = (Next, st')"
      "buffer_text st' = residual_buffer (buffer_text ?st1) ds"
      "full_text st' @ buffer_text st' = full_text ?st1 @ buffer_text ?st1 @ concat ds"
      "map content (calls st') = map content (calls ?st1) @ threshold_flushes (buffer_text ?st1) ds"
      by blast
    with o True show ?thesis by (simp add: guardrail_request_def)
  next
    case False
    let ?st1 = "st\<lparr>buffer_text := buffer_text st @ d\<rparr>"
    have o: "on_event svc gid gver st (delta_event d) = (Next, ?st1)"
      using False by (simp add: on_delta_event)
    from Cons.IH[of ?st1] obtain st' where
      "event_loop svc gid gver ?st1 (map delta_event ds) = (Next, st')"
      "buffer_text st' = residual_buffer (buffer_text ?st1) ds"
      "full_text st' @ buffer_text st' = full_text ?st1 @ buffer_text ?st1 @ concat ds"
      "map content (calls st') = map content (calls ?st1) @ threshold_flushes (buffer_text ?st1) ds"
      by blast
    with o False show ?thesis by simp
  qed
qed

text \<open>
  C2, as amended. For a finite stream of text deltas closed by a \<open>messageStop\<close> (with a
  stop reason other than \<open>GUARDRAIL_INTERVENED\<close>) on which no evaluation ever
  intervenes: the stream is read to its end; a Unit Evaluator call occurs exactly for
  each delta whose arrival would make the buffered length exceed \<open>TEXT_UNIT\<close>, on the
  buffer as it stood before that delta, and once more at the \<open>messageStop\<close>, on the buffer
  that remains; the contents of these calls, concatenated in order, are the exact
  concatenation of all deltas, and so is the text accumulated by the threshold flushes
  followed by the remaining buffer. When the concatenation is longer than \<open>TEXT_UNIT\<close>
  there are at least two calls; how many depends on how the text is cut into deltas.
\<close>

theorem stream_without_intervention:
  assumes "never_intervenes svc" and "stopReason \<noteq> ''GUARDRAIL_INTERVENED''"
  shows "\<exists>st. run_stream svc gid gver (Some (map delta_event deltas @ [stop_event stopReason])) =
                (Next, st) \<and>
              map content (calls st) = threshold_flushes [] deltas @ [residual_buffer [] deltas] \<and>
              concat (map content (calls st)) = concat deltas \<and>
              full_text st @ buffer_text st = concat deltas \<and>
              (length (concat deltas) > TEXT_UNIT \<longrightarrow> 2 \<le> length (calls st))"
proof -
  from deltas_without_intervention[OF assms(1), of gid gver initial deltas] obtain st1 where
    l: "event_loop svc gid gver initial (map delta_event deltas) = (Next, st1)"
    and b: "buffer_text st1 = residual_buffer [] deltas"
    and f: "full_text st1 @ buffer_text st1 = concat deltas"
    and c: "map content (calls st1) = threshold_flushes [] deltas"
    by (auto simp: initial_def)
  from never_intervenes_verdict[OF assms(1)] obtain response where
    v: "snd (apply_guardrail svc (calls st1) (buffer_text st1) ''OUTPUT'' gid gver) =
          Inr (False, buffer_text st1, response)"
    by blast
  let ?st = "st1\<lparr>calls := calls st1 @ [guardrail_request gid gver ''OUTPUT'' (buffer_text st1)]\<rparr>"
  have s: "on_event svc gid gver st1 (stop_event stopReason) = (Next, ?st)"
    using assms(2) by (simp add: on_stop_event v)
  have r: "run_stream svc gid gver (Some (map delta_event deltas @ [stop_event stopReason])) =
      (Next, ?st)"
    by (simp add: run_stream_def event_loop_append l s)
  have m: "map content (calls ?st) = threshold_flushes [] deltas @ [residual_buffer [] deltas]"
    using b c by (simp add: guardrail_request_def)
  have cc: "concat (map content (calls ?st)) = concat deltas"
    using m flushes_cover[of "[]" deltas] by simp
  have two: "length (concat deltas) > TEXT_UNIT \<longrightarrow> 2 \<le> length (calls ?st)"
  proof
    assume long: "length (concat deltas) > TEXT_UNIT"
    then have ne: "deltas \<noteq> []" by auto
    have "threshold_flushes [] deltas \<noteq> []"
    proof
      assume "threshold_flushes [] deltas = []"
      from no_flush_short[OF this ne] long show False by simp
    qed
    then have "1 \<le> length (threshold_flushes [] deltas)"
      by (cases "threshold_flushes [] deltas") auto
    moreover have "length (calls ?st) = length (map content (calls ?st))" by simp
    ultimately show "2 \<le> length (calls ?st)" unfolding m by simp
  qed
  from r m cc f two show ?thesis by auto
qed

theorem stream_without_intervention_witness:
  "never_intervenes pass_service \<and> ''end_turn'' \<noteq> ''GUARDRAIL_INTERVENED'' \<and>
   length (concat [replicate 1000 CHR ''a'', replicate 1001 CHR ''b'']) > TEXT_UNIT \<and>
   (\<exists>st. run_stream pass_service ''g'' ''1''
            (Some (map delta_event [replicate 1000 CHR ''a'', replicate 1001 CHR ''b''] @
                   [stop_event ''end_turn''])) = (Next, st) \<and>
         map content (calls st) = [replicate 1000 CHR ''a'', replicate 1001 CHR ''b''] \<and>
         full_text st @ buffer_text st = replicate 1000 CHR ''a'' @ replicate 1001 CHR ''b'' \<and>
         2 \<le> length (calls st))"
proof -
  let ?ds = "[replicate 1000 CHR ''a'', replicate 1001 CHR ''b'']"
  have h1: "never_intervenes pass_service" by (rule pass_service_never_intervenes)
  have h2: "''end_turn'' \<noteq> ''GUARDRAIL_INTERVENED''" by simp
  have h3: "length (concat ?ds) > TEXT_UNIT" by (simp add: TEXT_UNIT_def)
  have t: "threshold_flushes [] ?ds @ [residual_buffer [] ?ds] = ?ds"
    by (simp add: TEXT_UNIT_def)
  from stream_without_intervention[OF h1 h2, of "''g''" "''1''" ?ds] obtain st where
    "run_stream pass_service ''g'' ''1'' (Some (map delta_event ?ds @ [stop_event ''end_turn''])) =
       (Next, st)"
    "map content (calls st) = threshold_flushes [] ?ds @ [residual_buffer [] ?ds]"
    "full_text st @ buffer_text st = concat ?ds"
    "length (concat ?ds) > TEXT_UNIT \<longrightarrow> 2 \<le> length (calls st)"
    by blast
  with h3 t have "\<exists>st. run_stream pass_service ''g'' ''1''
            (Some (map delta_event ?ds @ [stop_event ''end_turn''])) = (Next, st) \<and>
         map content (calls st) = ?ds \<and>
         full_text st @ buffer_text st = replicate 1000 CHR ''a'' @ replicate 1001 CHR ''b'' \<and>
         2 \<le> length (calls st)"
    by auto
  with h1 h2 h3 show ?thesis by blast
qed

text \<open>
  C2 as stated fails: deltas of 1000, 1000 and 1 characters have a concatenation of
  length \<open>2 * TEXT_UNIT + 1\<close>, no evaluation intervenes, and three evaluation calls
  occur, not two.
\<close>

theorem three_calls_for_two_units_and_one:
  "length (concat [replicate 1000 CHR ''a'', replicate 1000 CHR ''a'', ''a'']) = 2 * TEXT_UNIT + 1 \<and>
   map content (calls (snd (run_stream pass_service ''g'' ''1''
     (Some [delta_event (replicate 1000 CHR ''a''), delta_event (replicate 1000 CHR ''a''),
            delta_event ''a'', stop_event ''end_turn''])))) =
     [replicate 1000 CHR ''a'', replicate 1000 CHR ''a'', ''a''] \<and>
   length [replicate 1000 CHR ''a'', replicate 1000 CHR ''a'', ''a''] = 3"
  by (simp add: run_stream_def on_delta_event on_stop_event pass_service_verdict initial_def
        TEXT_UNIT_def guardrail_request_def)

text \<open>
  The \<open>messageStop\<close> path evaluates the remaining buffer without adding its text to
  \<open>full_text\<close>, and records the result only when it is blocked; the threshold path does
  both. A stream of one short delta therefore returns no text and no history.
\<close>

lemma final_buffer_is_not_returned:
  "stream_conversation pass_service ''g'' ''1''
     (Some [delta_event ''Hello'', stop_event ''end_turn'']) = Inr ([], [])"
  by (simp add: stream_conversation_def run_stream_def on_delta_event on_stop_event
        pass_service_verdict initial_def TEXT_UNIT_def)

section \<open>What wrapping keeps of the text\<close>

lemma isspace_space: "isspace CHR 0x20"
  by (simp add: isspace_def)

lemma isspace_tab: "isspace CHR 0x09"
  by (simp add: isspace_def)

lemma is_whitespace_isspace: "is_whitespace c \<Longrightarrow> isspace c"
  by (auto simp: is_whitespace_def isspace_def)

lemma visible_expandtabs:
  "visible (expandtabs_from tabsize line_pos text) = visible text"
  by (induction "text" arbitrary: line_pos) (auto simp: visible_def isspace_space isspace_tab Let_def)

lemma visible_translate:
  "visible (translate_whitespace text) = visible text"
  by (induction "text") (auto simp: visible_def translate_whitespace_def isspace_space is_whitespace_isspace)

lemma visible_munge:
  "visible (munge_whitespace text) = visible text"
  by (simp add: munge_whitespace_def expandtabs_def visible_translate visible_expandtabs)

lemma concat_re_split: "concat (re_split behind pending rest) = pending @ rest"
proof (induction behind pending rest rule: re_split.induct)
  case (1 behind pending)
  show ?case by simp
next
  case (2 behind pending c cs)
  show ?case
  proof (cases "wordsep_match behind (c # cs)")
    case None
    with 2 show ?thesis by simp
  next
    case (Some n)
    with 2 show ?thesis by simp
  qed
qed

lemma concat_filter_nonempty: "concat (filter (\<lambda>c. c \<noteq> []) xs) = concat xs"
  by (induction xs) auto

lemma concat_split: "concat (split_text text) = text"
  by (simp add: split_text_def concat_filter_nonempty concat_re_split)

lemma split_nonempty: "\<forall>c\<in>set (split_text text). c \<noteq> []"
  by (simp add: split_text_def)

lemma visible_append: "visible (a @ b) = visible a @ visible b"
  by (simp add: visible_def)

lemma visible_strip_is_empty: "strip_is_empty s \<Longrightarrow> visible s = []"
  by (induction s) (auto simp: strip_is_empty_def visible_def)

lemma take_fitting_concat:
  "take_fitting width cur_line cur_len chunks = (cl, n, rest) \<Longrightarrow>
     concat cl @ concat rest = concat cur_line @ concat chunks"
proof (induction chunks arbitrary: cur_line cur_len)
  case Nil
  then show ?case by simp
next
  case (Cons c cs)
  show ?case
  proof (cases "cur_len + length c \<le> width")
    case True
    with Cons.prems have "take_fitting width (cur_line @ [c]) (cur_len + length c) cs = (cl, n, rest)"
      by simp
    from Cons.IH[OF this] show ?thesis by simp
  next
    case False
    with Cons.prems show ?thesis by simp
  qed
qed

lemma take_fitting_length:
  "take_fitting width cur_line cur_len chunks = (cl, n, rest) \<Longrightarrow>
     cur_len = length (concat cur_line) \<Longrightarrow> cur_len \<le> width \<Longrightarrow>
     n = length (concat cl) \<and> n \<le> width"
proof (induction chunks arbitrary: cur_line cur_len)
  case Nil
  then show ?case by auto
next
  case (Cons c cs)
  show ?case
  proof (cases "cur_len + length c \<le> width")
    case True
    with Cons.prems(1) have t: "take_fitting width (cur_line @ [c]) (cur_len + length c) cs = (cl, n, rest)"
      by simp
    have l: "cur_len + length c = length (concat (cur_line @ [c]))"
      using Cons.prems(2) by simp
    from Cons.IH[OF t l True] show ?thesis .
  next
    case False
    with Cons.prems show ?thesis by auto
  qed
qed

lemma take_fitting_subset:
  "take_fitting width cur_line cur_len chunks = (cl, n, rest) \<Longrightarrow>
     set cl \<subseteq> set cur_line \<union> set chunks \<and> set rest \<subseteq> set chunks"
proof (induction chunks arbitrary: cur_line cur_len)
  case Nil
  then show ?case by simp
next
  case (Cons c cs)
  show ?case
  proof (cases "cur_len + length c \<le> width")
    case True
    with Cons.prems have "take_fitting width (cur_line @ [c]) (cur_len + length c) cs = (cl, n, rest)"
      by simp
    from Cons.IH[OF this] show ?thesis by auto
  next
    case False
    with Cons.prems show ?thesis by auto
  qed
qed

text \<open>The steps of one pass of the outer loop, named.\<close>

lemma wrap_line_steps:
  assumes "wrap_line width lines chunks = (lines', chunks')"
  obtains chunks1 cl1 n1 chunks2 cl2 cl3 where
    "chunks1 = (case chunks of [] \<Rightarrow> [] | c # cs \<Rightarrow> if strip_is_empty c \<and> lines \<noteq> [] then cs else chunks)"
    "take_fitting width [] 0 chunks1 = (cl1, n1, chunks2)"
    "(cl2, chunks') =
       (case chunks2 of
          [] \<Rightarrow> (cl1, chunks2)
        | chunk # others \<Rightarrow>
            if length chunk > width
            then handle_long_word chunk others cl1 n1 width
            else (cl1, chunks2))"
    "cl3 = (if cl2 \<noteq> [] \<and> strip_is_empty (last cl2) then butlast cl2 else cl2)"
    "lines' = (if cl3 \<noteq> [] then lines @ [concat cl3] else lines)"
proof -
  define chunks1 where "chunks1 = (case chunks of [] \<Rightarrow> [] | c # cs \<Rightarrow> if strip_is_empty c \<and> lines \<noteq> [] then cs else chunks)"
  obtain cl1 n1 chunks2 where tf: "take_fitting width [] 0 chunks1 = (cl1, n1, chunks2)"
    by (cases "take_fitting width [] 0 chunks1") auto
  define step where "step =
       (case chunks2 of
          [] \<Rightarrow> (cl1, chunks2)
        | chunk # others \<Rightarrow>
            if length chunk > width
            then handle_long_word chunk others cl1 n1 width
            else (cl1, chunks2))"
  define cl3 where "cl3 = (if fst step \<noteq> [] \<and> strip_is_empty (last (fst step)) then butlast (fst step) else fst step)"
  have w: "wrap_line width lines chunks = (if cl3 \<noteq> [] then lines @ [concat cl3] else lines, snd step)"
    using tf
    by (simp add: wrap_line_def chunks1_def[symmetric] step_def[symmetric] cl3_def Let_def
          split: prod.splits)
  from w assms have l: "lines' = (if cl3 \<noteq> [] then lines @ [concat cl3] else lines)"
    and c: "chunks' = snd step"
    by simp_all
  have s: "(fst step, chunks') =
       (case chunks2 of
          [] \<Rightarrow> (cl1, chunks2)
        | chunk # others \<Rightarrow>
            if length chunk > width
            then handle_long_word chunk others cl1 n1 width
            else (cl1, chunks2))"
    unfolding c step_def[symmetric] by simp
  show thesis
    by (rule that[OF chunks1_def tf s cl3_def l])
qed

lemma concat_butlast_last: "xs \<noteq> [] \<Longrightarrow> concat xs = concat (butlast xs) @ last xs"
proof -
  assume "xs \<noteq> []"
  then have "xs = butlast xs @ [last xs]" by simp
  then have "concat xs = concat (butlast xs @ [last xs])" by simp
  then show ?thesis by simp
qed

lemma length_concat_butlast: "length (concat (butlast xs)) \<le> length (concat xs)"
proof (cases "xs = []")
  case True
  then show ?thesis by simp
next
  case False
  then have "length (concat xs) = length (concat (butlast xs)) + length (last xs)"
    using concat_butlast_last[of xs] by (metis length_append)
  then show ?thesis by simp
qed

lemma long_step_concat:
  "(cl2, chunks') =
     (case chunks2 of
        [] \<Rightarrow> (cl1, chunks2)
      | chunk # others \<Rightarrow>
          if length chunk > width
          then handle_long_word chunk others cl1 n1 width
          else (cl1, chunks2)) \<Longrightarrow>
   concat cl2 @ concat chunks' = concat cl1 @ concat chunks2"
  by (cases chunks2) (auto simp: handle_long_word_def Let_def split: if_splits)

lemma wrap_line_visible:
  assumes "wrap_line width lines chunks = (lines', chunks')" and "chunks \<noteq> []"
  shows "visible (concat lines') @ visible (concat chunks') =
         visible (concat lines) @ visible (concat chunks)"
proof -
  from wrap_line_steps[OF assms(1)] obtain chunks1 cl1 n1 chunks2 cl2 cl3 where
    s1: "chunks1 = (case chunks of [] \<Rightarrow> [] | c # cs \<Rightarrow> if strip_is_empty c \<and> lines \<noteq> [] then cs else chunks)"
    and s2: "take_fitting width [] 0 chunks1 = (cl1, n1, chunks2)"
    and s3: "(cl2, chunks') =
       (case chunks2 of
          [] \<Rightarrow> (cl1, chunks2)
        | chunk # others \<Rightarrow>
            if length chunk > width
            then handle_long_word chunk others cl1 n1 width
            else (cl1, chunks2))"
    and s4: "cl3 = (if cl2 \<noteq> [] \<and> strip_is_empty (last cl2) then butlast cl2 else cl2)"
    and s5: "lines' = (if cl3 \<noteq> [] then lines @ [concat cl3] else lines)"
    by blast
  obtain c cs where ch: "chunks = c # cs" using assms(2) by (cases chunks) auto
  have v1: "visible (concat chunks1) = visible (concat chunks)"
    by (simp add: s1 ch visible_append visible_strip_is_empty)
  have v2: "concat cl1 @ concat chunks2 = concat chunks1"
    using take_fitting_concat[OF s2] by simp
  have v3: "concat cl2 @ concat chunks' = concat cl1 @ concat chunks2"
    using long_step_concat[OF s3] .
  have v4: "visible (concat cl3) = visible (concat cl2)"
  proof (cases "cl2 \<noteq> [] \<and> strip_is_empty (last cl2)")
    case True
    then have "concat cl2 = concat (butlast cl2) @ last cl2"
      using concat_butlast_last by blast
    then have "visible (concat cl2) = visible (concat (butlast cl2)) @ visible (last cl2)"
      by (simp add: visible_append)
    with True show ?thesis by (simp add: s4 visible_strip_is_empty)
  next
    case False
    then have "cl3 = cl2" by (auto simp: s4)
    then show ?thesis by simp
  qed
  have v5: "concat lines' = concat lines @ concat cl3"
    by (simp add: s5)
  have "visible (concat lines') @ visible (concat chunks') =
        visible (concat lines) @ visible (concat cl2 @ concat chunks')"
    by (simp add: v5 v4 visible_append)
  also have "\<dots> = visible (concat lines) @ visible (concat chunks1)"
    by (simp add: v3 v2)
  finally show ?thesis by (simp add: v1)
qed

lemma long_step_length:
  assumes "(cl2, chunks') =
     (case chunks2 of
        [] \<Rightarrow> (cl1, chunks2)
      | chunk # others \<Rightarrow>
          if length chunk > width
          then handle_long_word chunk others cl1 n1 width
          else (cl1, chunks2))"
    and "n1 = length (concat cl1)" and "n1 \<le> width" and "1 \<le> width"
  shows "length (concat cl2) \<le> width"
proof (cases chunks2)
  case Nil
  with assms show ?thesis by simp
next
  case (Cons chunk others)
  show ?thesis
  proof (cases "length chunk > width")
    case True
    have "long_word_end chunk (width - n1) \<le> width - n1" by (rule long_word_end_le)
    with assms Cons True show ?thesis
      by (simp add: handle_long_word_def Let_def)
  next
    case False
    with assms Cons show ?thesis by simp
  qed
qed

lemma wrap_line_width:
  assumes "wrap_line width lines chunks = (lines', chunks')" and "1 \<le> width"
      and "\<forall>l\<in>set lines. length l \<le> width"
  shows "\<forall>l\<in>set lines'. length l \<le> width"
proof -
  from wrap_line_steps[OF assms(1)] obtain chunks1 cl1 n1 chunks2 cl2 cl3 where
    s1: "chunks1 = (case chunks of [] \<Rightarrow> [] | c # cs \<Rightarrow> if strip_is_empty c \<and> lines \<noteq> [] then cs else chunks)"
    and s2: "take_fitting width [] 0 chunks1 = (cl1, n1, chunks2)"
    and s3: "(cl2, chunks') =
       (case chunks2 of
          [] \<Rightarrow> (cl1, chunks2)
        | chunk # others \<Rightarrow>
            if length chunk > width
            then handle_long_word chunk others cl1 n1 width
            else (cl1, chunks2))"
    and s4: "cl3 = (if cl2 \<noteq> [] \<and> strip_is_empty (last cl2) then butlast cl2 else cl2)"
    and s5: "lines' = (if cl3 \<noteq> [] then lines @ [concat cl3] else lines)"
    by blast
  have z: "(0::nat) = length (concat ([]::string list))" by simp
  have z': "(0::nat) \<le> width" by simp
  from take_fitting_length[OF s2 z z'] have n: "n1 = length (concat cl1)" and n': "n1 \<le> width"
    by blast+
  have l2: "length (concat cl2) \<le> width"
    by (rule long_step_length[OF s3 n n' assms(2)])
  have "cl3 = butlast cl2 \<or> cl3 = cl2"
    by (simp add: s4)
  then have "length (concat cl3) \<le> length (concat cl2)"
    using length_concat_butlast[of cl2] by (metis order_refl)
  with l2 have l3: "length (concat cl3) \<le> width" by (rule order_trans[rotated])
  show ?thesis
  proof (cases "cl3 \<noteq> []")
    case True
    then have "lines' = lines @ [concat cl3]" by (simp add: s5)
    with assms(3) l3 show ?thesis by simp
  next
    case False
    then have "lines' = lines" by (simp add: s5)
    with assms(3) show ?thesis by simp
  qed
qed

lemma long_step_nonempty:
  assumes "(cl2, chunks') =
     (case chunks2 of
        [] \<Rightarrow> (cl1, chunks2)
      | chunk # others \<Rightarrow>
          if length chunk > width
          then handle_long_word chunk others cl1 n1 width
          else (cl1, chunks2))"
    and "\<forall>c\<in>set cl1. c \<noteq> []" and "\<forall>c\<in>set chunks2. c \<noteq> []" and "1 \<le> width"
  shows "(\<forall>c\<in>set chunks'. c \<noteq> []) \<and>
         (\<forall>c\<in>set (if cl2 \<noteq> [] \<and> strip_is_empty (last cl2) then butlast cl2 else cl2). c \<noteq> [])"
proof (cases chunks2)
  case Nil
  with assms show ?thesis by (auto dest: in_set_butlastD)
next
  case (Cons chunk others)
  show ?thesis
  proof (cases "length chunk > width")
    case False
    with assms Cons show ?thesis by (auto dest: in_set_butlastD)
  next
    case True
    let ?e = "long_word_end chunk (width - n1)"
    have e: "?e \<le> width - n1" by (rule long_word_end_le)
    from assms(1,4) Cons True have c2: "cl2 = cl1 @ [take ?e chunk]"
      and c': "chunks' = drop ?e chunk # others"
      by (simp_all add: handle_long_word_def Let_def)
    have d: "drop ?e chunk \<noteq> []" using e True by simp
    have rest: "\<forall>c\<in>set chunks'. c \<noteq> []"
      using assms(3) Cons d by (simp add: c')
    have "\<forall>c\<in>set (if cl2 \<noteq> [] \<and> strip_is_empty (last cl2) then butlast cl2 else cl2). c \<noteq> []"
    proof (cases "strip_is_empty (take ?e chunk)")
      case True
      with assms(2) show ?thesis by (simp add: c2)
    next
      case False
      have "take ?e chunk \<noteq> []"
      proof
        assume t: "take ?e chunk = []"
        have "strip_is_empty (take ?e chunk)" unfolding t by (simp add: strip_is_empty_def)
        with False show False by simp
      qed
      with False assms(2) show ?thesis by (simp add: c2)
    qed
    with rest show ?thesis by simp
  qed
qed

lemma wrap_line_nonempty:
  assumes "wrap_line width lines chunks = (lines', chunks')" and "1 \<le> width"
      and "\<forall>c\<in>set chunks. c \<noteq> []" and "\<forall>l\<in>set lines. l \<noteq> []" and "chunks \<noteq> []"
  shows "(\<forall>l\<in>set lines'. l \<noteq> []) \<and> (\<forall>c\<in>set chunks'. c \<noteq> [])"
proof -
  from wrap_line_steps[OF assms(1)] obtain chunks1 cl1 n1 chunks2 cl2 cl3 where
    s1: "chunks1 = (case chunks of [] \<Rightarrow> [] | c # cs \<Rightarrow> if strip_is_empty c \<and> lines \<noteq> [] then cs else chunks)"
    and s2: "take_fitting width [] 0 chunks1 = (cl1, n1, chunks2)"
    and s3: "(cl2, chunks') =
       (case chunks2 of
          [] \<Rightarrow> (cl1, chunks2)
        | chunk # others \<Rightarrow>
            if length chunk > width
            then handle_long_word chunk others cl1 n1 width
            else (cl1, chunks2))"
    and s4: "cl3 = (if cl2 \<noteq> [] \<and> strip_is_empty (last cl2) then butlast cl2 else cl2)"
    and s5: "lines' = (if cl3 \<noteq> [] then lines @ [concat cl3] else lines)"
    by blast
  obtain c cs where ch: "chunks = c # cs" using assms(5) by (cases chunks) auto
  have c1: "\<forall>c\<in>set chunks1. c \<noteq> []"
    using assms(3) by (auto simp: s1 ch)
  from take_fitting_subset[OF s2] c1
  have a: "\<forall>c\<in>set cl1. c \<noteq> []" and b: "\<forall>c\<in>set chunks2. c \<noteq> []"
    by auto
  from long_step_nonempty[OF s3 a b assms(2)]
  have r: "\<forall>c\<in>set chunks'. c \<noteq> []" and l: "\<forall>c\<in>set cl3. c \<noteq> []"
    by (simp_all add: s4)
  have "cl3 \<noteq> [] \<Longrightarrow> concat cl3 \<noteq> []"
    using l by (cases cl3) auto
  with assms(4) have "\<forall>l\<in>set lines'. l \<noteq> []"
    by (auto simp: s5)
  with r show ?thesis by simp
qed

lemma wrap_loop_visible:
  "visible (concat (wrap_loop width lines chunks)) = visible (concat lines) @ visible (concat chunks)"
proof (induction width lines chunks rule: wrap_loop.induct)
  case (1 width lines)
  show ?case by (simp add: visible_def)
next
  case (2 width lines c cs)
  obtain lines' chunks' where w: "wrap_line width lines (c # cs) = (lines', chunks')"
    by (cases "wrap_line width lines (c # cs)") auto
  from 2[OF w[symmetric]]
  have "visible (concat (wrap_loop width lines' chunks')) =
        visible (concat lines') @ visible (concat chunks')" .
  also have "\<dots> = visible (concat lines) @ visible (concat (c # cs))"
    using wrap_line_visible[OF w] by simp
  finally show ?case by (simp add: w)
qed

lemma wrap_loop_lines:
  "1 \<le> width \<Longrightarrow> (\<forall>c\<in>set chunks. c \<noteq> []) \<Longrightarrow>
   (\<forall>l\<in>set lines. l \<noteq> [] \<and> length l \<le> width) \<Longrightarrow>
   (\<forall>l\<in>set (wrap_loop width lines chunks). l \<noteq> [] \<and> length l \<le> width)"
proof (induction width lines chunks rule: wrap_loop.induct)
  case (1 width lines)
  then show ?case by simp
next
  case (2 width lines c cs)
  obtain lines' chunks' where w: "wrap_line width lines (c # cs) = (lines', chunks')"
    by (cases "wrap_line width lines (c # cs)") auto
  note wd = "2.prems"(1)
  have a: "\<forall>l\<in>set lines'. length l \<le> width"
    using wrap_line_width[OF w wd] "2.prems"(3) by simp
  have b: "(\<forall>l\<in>set lines'. l \<noteq> []) \<and> (\<forall>c\<in>set chunks'. c \<noteq> [])"
    using wrap_line_nonempty[OF w wd "2.prems"(2)] "2.prems"(3) by simp
  from a b have l: "\<forall>l\<in>set lines'. l \<noteq> [] \<and> length l \<le> width" by simp
  from b have c: "\<forall>c\<in>set chunks'. c \<noteq> []" by simp
  from "2.IH"[OF w[symmetric] wd c l] show ?case by (simp add: w)
qed

lemma strip_is_empty_append:
  "strip_is_empty (a @ b) \<longleftrightarrow> strip_is_empty a \<and> strip_is_empty b"
  by (simp add: strip_is_empty_def)

lemma covers_Cons_iff:
  "covers s (w # ws) \<longleftrightarrow>
     (\<exists>g rest. s = g @ w @ rest \<and> strip_is_empty g \<and> covers rest ws)"
proof
  assume "covers s (w # ws)"
  then have "\<exists>n\<in>set [0..<Suc (length s)]. strip_is_empty (take n s) \<and>
      take (length w) (drop n s) = w \<and> covers (drop (n + length w) s) ws"
    by (simp only: covers.simps list_ex_iff)
  then obtain n where n: "strip_is_empty (take n s)" "take (length w) (drop n s) = w"
    "covers (drop (n + length w) s) ws"
    by blast
  have a: "s = take n s @ drop n s" by (rule append_take_drop_id[symmetric])
  have b: "drop n s = take (length w) (drop n s) @ drop (length w) (drop n s)"
    by (rule append_take_drop_id[symmetric])
  have c: "drop (length w) (drop n s) = drop (n + length w) s"
    by (simp add: add.commute)
  have "drop n s = w @ drop (n + length w) s"
    using b n(2) c by metis
  with a have "s = take n s @ w @ drop (n + length w) s" by metis
  with n show "\<exists>g rest. s = g @ w @ rest \<and> strip_is_empty g \<and> covers rest ws" by blast
next
  assume "\<exists>g rest. s = g @ w @ rest \<and> strip_is_empty g \<and> covers rest ws"
  then obtain g rest where s: "s = g @ w @ rest" and g: "strip_is_empty g" and c: "covers rest ws"
    by blast
  have "length g \<in> set [0..<Suc (length s)]" by (simp add: s)
  moreover have "strip_is_empty (take (length g) s)" using g by (simp add: s)
  moreover have "take (length w) (drop (length g) s) = w" by (simp add: s)
  moreover have "covers (drop (length g + length w) s) ws" using c by (simp add: s)
  ultimately show "covers s (w # ws)"
    unfolding covers.simps list_ex_iff by blast
qed

lemma covers_gap_end: "covers p ls \<Longrightarrow> strip_is_empty g \<Longrightarrow> covers (p @ g) ls"
proof (induction ls arbitrary: p)
  case Nil
  then show ?case by (simp add: strip_is_empty_append)
next
  case (Cons w ws)
  from Cons.prems(1) obtain g0 rest where p: "p = g0 @ w @ rest" and g0: "strip_is_empty g0"
    and c: "covers rest ws"
    unfolding covers_Cons_iff by blast
  from Cons.IH[OF c Cons.prems(2)] have "covers (rest @ g) ws" .
  moreover have "p @ g = g0 @ w @ (rest @ g)" by (simp add: p)
  ultimately show ?case unfolding covers_Cons_iff using g0 by blast
qed

lemma covers_snoc: "covers p ls \<Longrightarrow> strip_is_empty g \<Longrightarrow> covers (p @ g @ l) (ls @ [l])"
proof (induction ls arbitrary: p)
  case Nil
  then have "strip_is_empty (p @ g)" by (simp add: strip_is_empty_append)
  moreover have "p @ g @ l = (p @ g) @ l @ []" by simp
  moreover have "covers [] []" by (simp add: strip_is_empty_def)
  ultimately show ?case unfolding append_Nil covers_Cons_iff by blast
next
  case (Cons w ws)
  from Cons.prems(1) obtain g0 rest where p: "p = g0 @ w @ rest" and g0: "strip_is_empty g0"
    and c: "covers rest ws"
    unfolding covers_Cons_iff by blast
  from Cons.IH[OF c Cons.prems(2)] have "covers (rest @ g @ l) (ws @ [l])" .
  moreover have "p @ g @ l = g0 @ w @ (rest @ g @ l)" by (simp add: p)
  ultimately show ?case unfolding append_Cons covers_Cons_iff using g0 by blast
qed

lemma wrap_line_covers:
  assumes "wrap_line width lines chunks = (lines', chunks')" and "chunks \<noteq> []"
      and "covers p lines"
  shows "\<exists>q. covers (p @ q) lines' \<and> q @ concat chunks' = concat chunks"
proof -
  from wrap_line_steps[OF assms(1)] obtain chunks1 cl1 n1 chunks2 cl2 cl3 where
    s1: "chunks1 = (case chunks of [] \<Rightarrow> [] | c # cs \<Rightarrow> if strip_is_empty c \<and> lines \<noteq> [] then cs else chunks)"
    and s2: "take_fitting width [] 0 chunks1 = (cl1, n1, chunks2)"
    and s3: "(cl2, chunks') =
       (case chunks2 of
          [] \<Rightarrow> (cl1, chunks2)
        | chunk # others \<Rightarrow>
            if length chunk > width
            then handle_long_word chunk others cl1 n1 width
            else (cl1, chunks2))"
    and s4: "cl3 = (if cl2 \<noteq> [] \<and> strip_is_empty (last cl2) then butlast cl2 else cl2)"
    and s5: "lines' = (if cl3 \<noteq> [] then lines @ [concat cl3] else lines)"
    by blast
  obtain c cs where ch: "chunks = c # cs" using assms(2) by (cases chunks) auto
  obtain g1 where g1: "strip_is_empty g1" "concat chunks = g1 @ concat chunks1"
  proof (cases "strip_is_empty c \<and> lines \<noteq> []")
    case True
    then have "strip_is_empty c" "concat chunks = c @ concat chunks1"
      by (simp_all add: s1 ch)
    then show thesis by (rule that)
  next
    case False
    then have "chunks1 = chunks" by (auto simp: s1 ch)
    then have "strip_is_empty []" "concat chunks = [] @ concat chunks1"
      by (simp_all add: strip_is_empty_def)
    then show thesis by (rule that)
  qed
  have v2: "concat cl1 @ concat chunks2 = concat chunks1"
    using take_fitting_concat[OF s2] by simp
  have v3: "concat cl2 @ concat chunks' = concat cl1 @ concat chunks2"
    using long_step_concat[OF s3] .
  obtain g2 where g2: "strip_is_empty g2" "concat cl2 = concat cl3 @ g2"
  proof (cases "cl2 \<noteq> [] \<and> strip_is_empty (last cl2)")
    case True
    then have "concat cl2 = concat (butlast cl2) @ last cl2"
      using concat_butlast_last by blast
    with True have "strip_is_empty (last cl2)" "concat cl2 = concat cl3 @ last cl2"
      by (simp_all add: s4)
    then show thesis by (rule that)
  next
    case False
    then have "cl3 = cl2" by (auto simp: s4)
    then have "strip_is_empty []" "concat cl2 = concat cl3 @ []"
      by (simp_all add: strip_is_empty_def)
    then show thesis by (rule that)
  qed
  let ?q = "g1 @ concat cl3 @ g2"
  have q: "?q @ concat chunks' = concat chunks"
    using g1(2) g2(2) v2 v3 by (metis append.assoc)
  have "covers (p @ ?q) lines'"
  proof (cases "cl3 \<noteq> []")
    case True
    then have l: "lines' = lines @ [concat cl3]" by (simp add: s5)
    from covers_snoc[OF assms(3) g1(1)] have "covers (p @ g1 @ concat cl3) (lines @ [concat cl3])" .
    from covers_gap_end[OF this g2(1)] show ?thesis by (simp add: l)
  next
    case False
    then have l: "lines' = lines" and e: "concat cl3 = []" by (simp_all add: s5)
    have "strip_is_empty (g1 @ g2)" using g1(1) g2(1) by (simp add: strip_is_empty_append)
    from covers_gap_end[OF assms(3) this] show ?thesis by (simp add: l e)
  qed
  with q show ?thesis by blast
qed

lemma wrap_loop_covers:
  "covers p lines \<Longrightarrow> covers (p @ concat chunks) (wrap_loop width lines chunks)"
proof (induction width lines chunks arbitrary: p rule: wrap_loop.induct)
  case (1 width lines)
  then show ?case by simp
next
  case (2 width lines c cs)
  obtain lines' chunks' where w: "wrap_line width lines (c # cs) = (lines', chunks')"
    by (cases "wrap_line width lines (c # cs)") auto
  from wrap_line_covers[OF w _ "2.prems"] obtain q where
    q: "covers (p @ q) lines'" "q @ concat chunks' = concat (c # cs)"
    by blast
  from "2.IH"[OF w[symmetric] q(1)]
  have "covers ((p @ q) @ concat chunks') (wrap_loop width lines' chunks')" .
  then have "covers (p @ concat (c # cs)) (wrap_loop width lines' chunks')"
    using q(2) by (metis append.assoc)
  then show ?case by (simp add: w)
qed

lemma wrap_covers:
  "covers (munge_whitespace s) (wrap_loop width [] (split_chunks s))"
proof -
  have "covers [] []" by (simp add: strip_is_empty_def)
  from wrap_loop_covers[OF this, of "split_chunks s" width]
  show ?thesis by (simp add: split_chunks_def concat_split)
qed

section \<open>Wrapping two concrete long texts\<close>

lemma expandtabs_from_no_tab:
  "CHR 0x09 \<notin> set s \<Longrightarrow> expandtabs_from tabsize line_pos s = s"
  by (induction s arbitrary: line_pos) auto

lemma translate_only_spaces:
  "\<forall>c\<in>set s. is_whitespace c \<longrightarrow> c = CHR 0x20 \<Longrightarrow> translate_whitespace s = s"
  by (induction s) (auto simp: translate_whitespace_def)

lemma munge_plain:
  "CHR 0x09 \<notin> set s \<Longrightarrow> \<forall>c\<in>set s. is_whitespace c \<longrightarrow> c = CHR 0x20 \<Longrightarrow>
     munge_whitespace s = s"
  by (simp add: munge_whitespace_def expandtabs_def expandtabs_from_no_tab translate_only_spaces)

lemma rfind_hyphen_none: "CHR ''-'' \<notin> set chunk \<Longrightarrow> rfind_hyphen chunk i = None"
  by (induction i) (auto simp: in_set_conv_nth)

lemma list_all_replicate: "list_all P (replicate n x) \<longleftrightarrow> n = 0 \<or> P x"
  by (induction n) auto

lemma word_tail_plain:
  assumes "c \<noteq> CHR ''-''" and "\<not> is_whitespace c"
  shows "word_tail behind (replicate m c @ CHR 0x20 # r) = Some m"
proof (induction m arbitrary: behind)
  case 0
  show ?case
    by (simp add: hyphen_break_def end_of_word_def is_whitespace_def)
next
  case (Suc m)
  have h: "\<not> hyphen_break behind (c # replicate m c @ CHR 0x20 # r)"
    using assms(1) by (simp add: hyphen_break_def)
  have e: "\<not> end_of_word (c # replicate m c @ CHR 0x20 # r)"
    using assms(2) by (simp add: end_of_word_def)
  have d: "\<not> em_dash_next behind (c # replicate m c @ CHR 0x20 # r)"
    using assms(1) by (simp add: em_dash_next_def em_dash_len_def split: list.splits)
  show ?case
    using h e d assms(2) Suc.IH[of "c # behind"] by simp
qed

lemma split_word_space_letter:
  "split_text (replicate (Suc m) CHR ''a'' @ '' b'') = [replicate (Suc m) CHR ''a'', '' '', ''b'']"
proof -
  have a: "CHR ''a'' \<noteq> CHR ''-''" by simp
  have b: "\<not> is_whitespace CHR ''a''" by (simp add: is_whitespace_def)
  have t: "word_tail [CHR ''a''] (replicate m CHR ''a'' @ CHR 0x20 # ''b'') = Some m"
    by (rule word_tail_plain[OF a b])
  have m1: "wordsep_match [] (CHR ''a'' # replicate m CHR ''a'' @ '' b'') = Some (Suc m)"
    using t by (simp add: wordsep_match_def match_em_dash_def is_whitespace_def)
  have m2: "\<And>behind. wordsep_match behind '' b'' = Some 1"
    by (simp add: wordsep_match_def is_whitespace_def)
  have m3: "\<And>behind. wordsep_match (CHR 0x20 # behind) ''b'' = Some 1"
    by (simp add: wordsep_match_def match_em_dash_def word_punct_def re_word_def is_whitespace_def
          hyphen_break_def end_of_word_def)
  have "re_split [] [] (CHR ''a'' # replicate m CHR ''a'' @ '' b'') =
      [[], replicate (Suc m) CHR ''a'', [], '' '', [], ''b'', []]"
    by (simp add: m1 m2 m3)
  then show ?thesis by (simp add: split_text_def)
qed

lemma wrap_word_space_letter:
  "wrap (replicate (Suc m) CHR ''a'' @ '' b'') (Suc m) = Inr [replicate (Suc m) CHR ''a'', ''b'']"
proof -
  have mg: "munge_whitespace (replicate (Suc m) CHR ''a'' @ '' b'') = replicate (Suc m) CHR ''a'' @ '' b''"
    by (rule munge_plain) (auto simp: is_whitespace_def)
  have na: "\<not> isspace CHR ''a''" by (simp add: isspace_def)
  have nb: "\<not> isspace CHR ''b''" by (simp add: isspace_def)
  have l1: "wrap_line (Suc m) [] [replicate (Suc m) CHR ''a'', '' '', ''b''] =
      ([replicate (Suc m) CHR ''a''], ['' '', ''b''])"
    using na by (simp add: wrap_line_def strip_is_empty_def list_all_replicate del: replicate_Suc)
  have l2: "wrap_line (Suc m) [replicate (Suc m) CHR ''a''] ['' '', ''b''] =
      ([replicate (Suc m) CHR ''a'', ''b''], [])"
    using nb by (simp add: wrap_line_def strip_is_empty_def isspace_space list_all_replicate del: replicate_Suc)
  have "wrap_loop (Suc m) [] [replicate (Suc m) CHR ''a'', '' '', ''b''] =
      [replicate (Suc m) CHR ''a'', ''b'']"
    by (simp add: l1 l2 del: replicate_Suc)
  then show ?thesis
    by (simp add: wrap_def wrap_chunks_def split_chunks_def mg split_word_space_letter
          del: replicate_Suc)
qed

lemma split_spaces: "split_text (replicate (Suc k) CHR 0x20) = [replicate (Suc k) CHR 0x20]"
proof -
  have w: "is_whitespace CHR 0x20" by (simp add: is_whitespace_def)
  have "takeWhile is_whitespace (replicate (Suc k) CHR 0x20) = replicate (Suc k) CHR 0x20"
    using w by (simp del: replicate_Suc)
  then have m: "wordsep_match [] (CHR 0x20 # replicate k CHR 0x20) = Some (Suc k)"
    by (simp add: wordsep_match_def)
  have "re_split [] [] (CHR 0x20 # replicate k CHR 0x20) = [[], replicate (Suc k) CHR 0x20, []]"
    by (simp add: m)
  then show ?thesis by (simp add: split_text_def)
qed

lemma wrap_loop_spaces: "1 \<le> width \<Longrightarrow> wrap_loop width [] [replicate k CHR 0x20] = []"
proof (induction k rule: less_induct)
  case (less k)
  let ?s = "replicate k CHR 0x20"
  show ?case
  proof (cases "k \<le> width")
    case True
    then have "wrap_line width [] [?s] = ([], [])"
      by (simp add: wrap_line_def strip_is_empty_def list_all_replicate isspace_space)
    then show ?thesis by simp
  next
    case False
    have nh: "CHR ''-'' \<notin> set ?s" by simp
    have e: "long_word_end ?s width = width"
      using rfind_hyphen_none[OF nh] False by (simp add: long_word_end_def)
    have "wrap_line width [] [?s] = ([], [replicate (k - width) CHR 0x20])"
      using e False less.prems
      by (simp add: wrap_line_def handle_long_word_def strip_is_empty_def list_all_replicate
            isspace_space)
    moreover have "k - width < k" using False less.prems by simp
    ultimately show ?thesis using less.IH less.prems by simp
  qed
qed

text \<open>A text of spaces only, however long, is wrapped into no line at all.\<close>

lemma wrap_blank: "1 \<le> width \<Longrightarrow> wrap (replicate k CHR 0x20) width = Inr []"
proof (cases k)
  case 0
  assume "1 \<le> width"
  then show ?thesis
    using 0 by (simp add: wrap_def wrap_chunks_def split_chunks_def munge_whitespace_def
        expandtabs_def translate_whitespace_def split_text_def)
next
  case (Suc j)
  assume w: "1 \<le> width"
  have mg: "munge_whitespace (replicate k CHR 0x20) = replicate k CHR 0x20"
    by (rule munge_plain) auto
  have lp: "wrap_loop width [] [replicate (Suc j) CHR 0x20] = []"
    by (rule wrap_loop_spaces[OF w])
  have sp: "split_chunks (replicate (Suc j) CHR 0x20) = [replicate (Suc j) CHR 0x20]"
    unfolding split_chunks_def mg[unfolded Suc] by (rule split_spaces)
  show ?thesis
    unfolding Suc wrap_def wrap_chunks_def sp lp using w by simp
qed

section \<open>Properties of the Batch Chunker\<close>

lemma wrap_long_word_then_letter:
  "wrap long_word_then_letter (LIMIT_TEXT_UNIT * TEXT_UNIT) = Inr [replicate 25000 CHR ''a'', ''b'']"
  using wrap_word_space_letter[of 24999]
  by (simp add: long_word_then_letter_def LIMIT_TEXT_UNIT_def TEXT_UNIT_def del: replicate_Suc)

lemma wrap_long_blank_text:
  "wrap long_blank_text (LIMIT_TEXT_UNIT * TEXT_UNIT) = Inr []"
  using wrap_blank[of 25000 25001]
  by (simp add: long_blank_text_def LIMIT_TEXT_UNIT_def TEXT_UNIT_def)

text \<open>The requests of the loop are the chunks up to where it stops, in order.\<close>

lemma chunk_loop_calls:
  "\<exists>n. fst (chunk_loop svc src gid gver cs filtered_text bound chunks) =
         cs @ map (guardrail_request gid gver src) (take n chunks)"
proof (induction chunks arbitrary: cs filtered_text bound)
  case Nil
  show ?case by simp
next
  case (Cons chunk chunks)
  obtain r where p: "apply_guardrail svc cs chunk src gid gver =
      (cs @ [guardrail_request gid gver src chunk], r)"
    using apply_guardrail_pair by blast
  show ?case
  proof (cases r)
    case (Inl e)
    then have "fst (chunk_loop svc src gid gver cs filtered_text bound (chunk # chunks)) =
        cs @ map (guardrail_request gid gver src) (take 1 (chunk # chunks))"
      by (simp add: p)
    then show ?thesis by blast
  next
    case (Inr v)
    obtain is_blocked alt response where v: "v = (is_blocked, alt, response)" by (cases v) auto
    show ?thesis
    proof (cases is_blocked)
      case True
      with Inr v have "fst (chunk_loop svc src gid gver cs filtered_text bound (chunk # chunks)) =
          cs @ map (guardrail_request gid gver src) (take 1 (chunk # chunks))"
        by (simp add: p)
      then show ?thesis by blast
    next
      case False
      from Cons.IH[of "cs @ [guardrail_request gid gver src chunk]" "filtered_text @ alt"
          "Some (is_blocked, response)"]
      obtain n where "fst (chunk_loop svc src gid gver (cs @ [guardrail_request gid gver src chunk])
          (filtered_text @ alt) (Some (is_blocked, response)) chunks) =
          (cs @ [guardrail_request gid gver src chunk]) @
            map (guardrail_request gid gver src) (take n chunks)"
        by blast
      with Inr v False
      have "fst (chunk_loop svc src gid gver cs filtered_text bound (chunk # chunks)) =
          cs @ map (guardrail_request gid gver src) (take (Suc n) (chunk # chunks))"
        by (simp add: p)
      then show ?thesis by blast
    qed
  qed
qed

text \<open>
  C1, as amended. For every text longer than \<open>LIMIT_TEXT_UNIT * TEXT_UNIT\<close> characters
  the Batch Chunker's windows are the lines of \<open>textwrap.wrap\<close>. Each is non-empty and
  at most \<open>LIMIT_TEXT_UNIT * TEXT_UNIT\<close> characters long. They are ordered,
  non-overlapping, contiguous pieces of the text after its white space has been munged
  (tabs expanded, every white-space character replaced by a space), and what lies
  before, between and after them is white space only. So their concatenation has exactly
  the characters of the text that are not white space, in the same order, none dropped
  and none duplicated, while white space is dropped at the window boundaries. The
  requests the chunker sends are these windows in order, up to where it stops.
\<close>

theorem windows_keep_visible_text:
  assumes "length T > LIMIT_TEXT_UNIT * TEXT_UNIT"
  shows "\<exists>windows.
           wrap T (LIMIT_TEXT_UNIT * TEXT_UNIT) = Inr windows \<and>
           (\<forall>w\<in>set windows. w \<noteq> [] \<and> length w \<le> LIMIT_TEXT_UNIT * TEXT_UNIT) \<and>
           covers (munge_whitespace T) windows \<and>
           visible (concat windows) = visible T \<and>
           (\<exists>n. fst (apply_guardrail_full_text svc cs T src gid gver) =
                  cs @ map (guardrail_request gid gver src) (take n windows))"
proof -
  let ?width = "LIMIT_TEXT_UNIT * TEXT_UNIT"
  let ?windows = "wrap_loop ?width [] (split_chunks T)"
  have wd: "1 \<le> ?width" by (simp add: LIMIT_TEXT_UNIT_def TEXT_UNIT_def)
  then have w: "wrap T ?width = Inr ?windows"
    by (simp add: wrap_def wrap_chunks_def)
  have ne: "\<forall>c\<in>set (split_chunks T). c \<noteq> []"
    by (simp add: split_chunks_def split_nonempty)
  have l: "\<forall>w\<in>set ?windows. w \<noteq> [] \<and> length w \<le> ?width"
    by (rule wrap_loop_lines[OF wd ne]) simp
  have k: "covers (munge_whitespace T) ?windows"
    by (rule wrap_covers)
  have vn: "visible [] = []" by (simp add: visible_def)
  have "visible (concat ?windows) = visible (concat (split_chunks T))"
    by (simp add: wrap_loop_visible vn)
  then have v: "visible (concat ?windows) = visible T"
    by (simp add: split_chunks_def concat_split visible_munge)
  have "fst (apply_guardrail_full_text svc cs T src gid gver) =
      fst (chunk_loop svc src gid gver cs [] None ?windows)"
    using assms by (simp add: apply_guardrail_full_text_def w)
  with chunk_loop_calls[of svc src gid gver cs "[]" None ?windows]
  have c: "\<exists>n. fst (apply_guardrail_full_text svc cs T src gid gver) =
                  cs @ map (guardrail_request gid gver src) (take n ?windows)"
    by simp
  from w l k v c show ?thesis by blast
qed

theorem windows_keep_visible_text_witness:
  "length long_word_then_letter > LIMIT_TEXT_UNIT * TEXT_UNIT \<and>
   wrap long_word_then_letter (LIMIT_TEXT_UNIT * TEXT_UNIT) = Inr [replicate 25000 CHR ''a'', ''b''] \<and>
   covers (munge_whitespace long_word_then_letter) [replicate 25000 CHR ''a'', ''b''] \<and>
   visible (concat [replicate 25000 CHR ''a'', ''b'']) = visible long_word_then_letter"
proof -
  have h: "length long_word_then_letter > LIMIT_TEXT_UNIT * TEXT_UNIT"
    by (simp add: long_word_then_letter_def LIMIT_TEXT_UNIT_def TEXT_UNIT_def)
  from windows_keep_visible_text[OF h, of pass_service "[]" "''INPUT''" "''g''" "''DRAFT''"]
  obtain windows where
    "wrap long_word_then_letter (LIMIT_TEXT_UNIT * TEXT_UNIT) = Inr windows"
    "covers (munge_whitespace long_word_then_letter) windows"
    "visible (concat windows) = visible long_word_then_letter"
    by blast
  with h wrap_long_word_then_letter show ?thesis by simp
qed

text \<open>
  C1 as stated fails: the text of 25000 letters, a space and one more letter is cut
  into two windows whose concatenation has lost the space, and so has the filtered text
  that the chunker returns when nothing intervenes.
\<close>

theorem windows_drop_boundary_space:
  "length long_word_then_letter > LIMIT_TEXT_UNIT * TEXT_UNIT \<and>
   wrap long_word_then_letter (LIMIT_TEXT_UNIT * TEXT_UNIT) = Inr [replicate 25000 CHR ''a'', ''b''] \<and>
   concat [replicate 25000 CHR ''a'', ''b''] \<noteq> long_word_then_letter \<and>
   snd (apply_guardrail_full_text pass_service [] long_word_then_letter ''INPUT'' ''g'' ''DRAFT'') =
     Inr (False, replicate 25000 CHR ''a'' @ ''b'', none_response)"
proof -
  have h: "length long_word_then_letter > LIMIT_TEXT_UNIT * TEXT_UNIT"
    by (simp add: long_word_then_letter_def LIMIT_TEXT_UNIT_def TEXT_UNIT_def)
  have "length (concat [replicate 25000 CHR ''a'', ''b'']) \<noteq> length long_word_then_letter"
    by (simp add: long_word_then_letter_def)
  then have d: "concat [replicate 25000 CHR ''a'', ''b''] \<noteq> long_word_then_letter"
    by metis
  have p: "\<And>cs t. apply_guardrail pass_service cs t ''INPUT'' ''g'' ''DRAFT'' =
      (cs @ [guardrail_request ''g'' ''DRAFT'' ''INPUT'' t], Inr (False, t, none_response))"
    using apply_guardrail_pair[of pass_service] by (simp add: pass_service_verdict)
  have r: "snd (apply_guardrail_full_text pass_service [] long_word_then_letter ''INPUT'' ''g'' ''DRAFT'') =
     Inr (False, replicate 25000 CHR ''a'' @ ''b'', none_response)"
    using h by (simp add: apply_guardrail_full_text_def wrap_long_word_then_letter p)
  from h wrap_long_word_then_letter d r show ?thesis by simp
qed

text \<open>
  What the loop over the windows does when it returns. A blocked verdict comes from the
  first blocked window: the loop stopped there, sent no request after it, and the
  filtered text is that window's replacement text alone.
\<close>

lemma chunk_loop_blocked:
  assumes "chunk_loop svc src gid gver cs filtered_text bound chunks =
             (cs', Inr (True, filtered_text', response))"
      and "\<forall>r. bound \<noteq> Some (True, r)"
  shows "\<exists>n<length chunks.
           cs' = cs @ map (guardrail_request gid gver src) (take (Suc n) chunks) \<and>
           snd (apply_guardrail svc (cs @ map (guardrail_request gid gver src) (take n chunks))
                  (chunks ! n) src gid gver) = Inr (True, filtered_text', response)"
  using assms
proof (induction chunks arbitrary: cs filtered_text bound)
  case Nil
  then show ?case by (auto split: option.splits)
next
  case (Cons chunk chunks)
  obtain r where p: "apply_guardrail svc cs chunk src gid gver =
      (cs @ [guardrail_request gid gver src chunk], r)"
    using apply_guardrail_pair by blast
  show ?case
  proof (cases r)
    case (Inl e)
    with Cons.prems(1) show ?thesis by (simp add: p)
  next
    case (Inr v)
    obtain is_blocked alt resp where v: "v = (is_blocked, alt, resp)" by (cases v) auto
    show ?thesis
    proof (cases is_blocked)
      case True
      with Cons.prems(1) Inr v have "cs' = cs @ [guardrail_request gid gver src chunk]"
        and "alt = filtered_text'" and "resp = response"
        by (simp_all add: p)
      with p Inr v True have "0 < length (chunk # chunks) \<and>
           cs' = cs @ map (guardrail_request gid gver src) (take (Suc 0) (chunk # chunks)) \<and>
           snd (apply_guardrail svc (cs @ map (guardrail_request gid gver src) (take 0 (chunk # chunks)))
                  ((chunk # chunks) ! 0) src gid gver) = Inr (True, filtered_text', response)"
        by simp
      then show ?thesis by blast
    next
      case False
      let ?cs1 = "cs @ [guardrail_request gid gver src chunk]"
      from Cons.prems(1) Inr v False
      have l: "chunk_loop svc src gid gver ?cs1 (filtered_text @ alt) (Some (False, resp)) chunks =
          (cs', Inr (True, filtered_text', response))"
        by (simp add: p)
      have b: "\<forall>r. Some (False, resp) \<noteq> Some (True, r)" by simp
      from Cons.IH[OF l b] obtain n where n: "n < length chunks"
        "cs' = ?cs1 @ map (guardrail_request gid gver src) (take (Suc n) chunks)"
        "snd (apply_guardrail svc (?cs1 @ map (guardrail_request gid gver src) (take n chunks))
               (chunks ! n) src gid gver) = Inr (True, filtered_text', response)"
        by blast
      then have "Suc n < length (chunk # chunks) \<and>
           cs' = cs @ map (guardrail_request gid gver src) (take (Suc (Suc n)) (chunk # chunks)) \<and>
           snd (apply_guardrail svc (cs @ map (guardrail_request gid gver src) (take (Suc n) (chunk # chunks)))
                  ((chunk # chunks) ! Suc n) src gid gver) = Inr (True, filtered_text', response)"
        by simp
      then show ?thesis by blast
    qed
  qed
qed

text \<open>
  A verdict that is not blocked means that every window was sent, in order, that none
  was blocked, and that the filtered text is the concatenation of their replacement
  texts.
\<close>

lemma chunk_loop_passed:
  assumes "chunk_loop svc src gid gver cs filtered_text bound chunks =
             (cs', Inr (False, filtered_text', response))"
      and "chunks \<noteq> []"
  shows "cs' = cs @ map (guardrail_request gid gver src) chunks \<and>
         (\<exists>alts. length alts = length chunks \<and> filtered_text' = filtered_text @ concat alts \<and>
            (\<forall>n<length chunks. \<exists>r.
               snd (apply_guardrail svc (cs @ map (guardrail_request gid gver src) (take n chunks))
                      (chunks ! n) src gid gver) = Inr (False, alts ! n, r)))"
  using assms
proof (induction chunks arbitrary: cs filtered_text bound)
  case Nil
  then show ?case by simp
next
  case (Cons chunk chunks)
  obtain r where p: "apply_guardrail svc cs chunk src gid gver =
      (cs @ [guardrail_request gid gver src chunk], r)"
    using apply_guardrail_pair by blast
  show ?case
  proof (cases r)
    case (Inl e)
    with Cons.prems show ?thesis by (simp add: p)
  next
    case (Inr v)
    obtain is_blocked alt resp where v: "v = (is_blocked, alt, resp)" by (cases v) auto
    show ?thesis
    proof (cases is_blocked)
      case True
      with Cons.prems Inr v show ?thesis by (simp add: p)
    next
      case False
      let ?cs1 = "cs @ [guardrail_request gid gver src chunk]"
      from Cons.prems Inr v False
      have l: "chunk_loop svc src gid gver ?cs1 (filtered_text @ alt) (Some (False, resp)) chunks =
          (cs', Inr (False, filtered_text', response))"
        by (simp add: p)
      have first: "snd (apply_guardrail svc cs chunk src gid gver) = Inr (False, alt, resp)"
        using p Inr v False by simp
      show ?thesis
      proof (cases "chunks = []")
        case True
        with l have "cs' = ?cs1" and "filtered_text' = filtered_text @ alt" by simp_all
        with True first have "cs' = cs @ map (guardrail_request gid gver src) (chunk # chunks) \<and>
            length [alt] = length (chunk # chunks) \<and>
            filtered_text' = filtered_text @ concat [alt] \<and>
            (\<forall>n<length (chunk # chunks). \<exists>r.
               snd (apply_guardrail svc (cs @ map (guardrail_request gid gver src) (take n (chunk # chunks)))
                      ((chunk # chunks) ! n) src gid gver) = Inr (False, [alt] ! n, r))"
          by simp
        then show ?thesis by blast
      next
        case ne: False
        from Cons.IH[OF l ne] obtain alts where
          a: "cs' = ?cs1 @ map (guardrail_request gid gver src) chunks"
          "length alts = length chunks" "filtered_text' = (filtered_text @ alt) @ concat alts"
          "\<forall>n<length chunks. \<exists>r.
             snd (apply_guardrail svc (?cs1 @ map (guardrail_request gid gver src) (take n chunks))
                    (chunks ! n) src gid gver) = Inr (False, alts ! n, r)"
          by blast
        have each: "\<forall>n<length (chunk # chunks). \<exists>r.
             snd (apply_guardrail svc (cs @ map (guardrail_request gid gver src) (take n (chunk # chunks)))
                    ((chunk # chunks) ! n) src gid gver) = Inr (False, (alt # alts) ! n, r)"
        proof (intro allI impI)
          fix n assume n: "n < length (chunk # chunks)"
          show "\<exists>r. snd (apply_guardrail svc (cs @ map (guardrail_request gid gver src) (take n (chunk # chunks)))
                    ((chunk # chunks) ! n) src gid gver) = Inr (False, (alt # alts) ! n, r)"
          proof (cases n)
            case 0
            with first show ?thesis by simp
          next
            case (Suc k)
            with n have "k < length chunks" by simp
            with a(4) Suc show ?thesis by simp
          qed
        qed
        have "cs' = cs @ map (guardrail_request gid gver src) (chunk # chunks) \<and>
              length (alt # alts) = length (chunk # chunks) \<and>
              filtered_text' = filtered_text @ concat (alt # alts)"
          using a by simp
        with each show ?thesis by blast
      qed
    qed
  qed
qed

lemma apply_guardrail_answer:
  "svc cs (guardrail_request gid gver src chunk) = Inr response \<Longrightarrow>
     \<exists>is_blocked alt. snd (apply_guardrail svc cs chunk src gid gver) = Inr (is_blocked, alt, response)"
  by (auto simp: apply_guardrail_def guardrail_request_def Let_def)

text \<open>With at least one window and a service that answers every request, the loop returns.\<close>

lemma chunk_loop_returns:
  assumes "\<forall>cs req. \<exists>response. svc cs req = Inr response"
      and "chunks \<noteq> [] \<or> bound \<noteq> None"
  shows "\<exists>v. snd (chunk_loop svc src gid gver cs filtered_text bound chunks) = Inr v"
  using assms(2)
proof (induction chunks arbitrary: cs filtered_text bound)
  case Nil
  then show ?case by (auto split: option.splits)
next
  case (Cons chunk chunks)
  from assms(1) obtain response where
    s: "svc cs (guardrail_request gid gver src chunk) = Inr response" by blast
  from apply_guardrail_answer[of svc cs gid gver src chunk response, OF this] obtain is_blocked alt where
    "snd (apply_guardrail svc cs chunk src gid gver) = Inr (is_blocked, alt, response)"
    by blast
  with apply_guardrail_pair[of svc cs chunk src gid gver]
  have v: "apply_guardrail svc cs chunk src gid gver =
          (cs @ [guardrail_request gid gver src chunk], Inr (is_blocked, alt, response))"
    by simp
  show ?case
  proof (cases is_blocked)
    case True
    then show ?thesis by (auto simp: v)
  next
    case False
    from Cons.IH[of "Some (False, response)" "cs @ [guardrail_request gid gver src chunk]"
        "filtered_text @ alt"]
    show ?thesis using False by (auto simp: v)
  qed
qed

text \<open>
  A text of spaces only that is longer than \<open>LIMIT_TEXT_UNIT * TEXT_UNIT\<close> gives no
  window: no request is sent and the \<open>return\<close> after the loop finds \<open>is_blocked\<close>
  unbound, whatever the service.
\<close>

lemma blank_text_raises:
  assumes "k > LIMIT_TEXT_UNIT * TEXT_UNIT"
  shows "apply_guardrail_full_text svc cs (replicate k CHR 0x20) src gid gver =
           (cs, Inl (UnboundLocalError ''is_blocked''))"
proof -
  have "1 \<le> LIMIT_TEXT_UNIT * TEXT_UNIT" by (simp add: LIMIT_TEXT_UNIT_def TEXT_UNIT_def)
  from wrap_blank[OF this, of k] assms show ?thesis
    by (simp add: apply_guardrail_full_text_def)
qed

text \<open>
  C7 fails on a text of 25001 spaces: \<open>wrap\<close> gives no window, the loop body never runs,
  and the \<open>return\<close> after the loop reads \<open>is_blocked\<close>, which was never assigned.
\<close>

theorem blank_text_raises_unbound_local:
  "length long_blank_text > LIMIT_TEXT_UNIT * TEXT_UNIT \<and>
   wrap long_blank_text (LIMIT_TEXT_UNIT * TEXT_UNIT) = Inr [] \<and>
   apply_guardrail_full_text pass_service [] long_blank_text ''INPUT'' ''g'' ''DRAFT'' =
     ([], Inl (UnboundLocalError ''is_blocked''))"
proof -
  have h: "length long_blank_text > LIMIT_TEXT_UNIT * TEXT_UNIT"
    by (simp add: long_blank_text_def LIMIT_TEXT_UNIT_def TEXT_UNIT_def)
  then have "apply_guardrail_full_text pass_service [] long_blank_text ''INPUT'' ''g'' ''DRAFT'' =
     ([], Inl (UnboundLocalError ''is_blocked''))"
    by (simp add: apply_guardrail_full_text_def wrap_long_blank_text)
  with h wrap_long_blank_text show ?thesis by simp
qed

end
